theory Spec2Isabelle
  imports Complex_Main
begin

section \<open>The flow document data model (frontend/src/types.ts)\<close>

text \<open>
  The TypeScript interfaces become records; an optional field \<open>f?: T\<close> becomes a field
  of type \<open>T option\<close>, \<open>None\<close> standing for the absent key. Field names carry the
  record's prefix, since \<open>id\<close>, \<open>from\<close>, \<open>x\<close> and the like are taken in HOL.
  A JavaScript \<open>number\<close> is carried as a \<open>real\<close>: none of the functions below
  computes with a number of the document, they only store and copy them.
\<close>

type_synonym number = real

record RetryPolicy =
  retry_max :: number
  retry_backoff_ms :: "number option"

record CallSettings =
  cs_model :: "string option"
  cs_temperature :: "number option"
  cs_top_p :: "number option"
  cs_max_tokens :: "number option"
  cs_timeout_ms :: "number option"
  cs_retry :: "RetryPolicy option"

record FlowMetadata =
  md_name :: "string option"
  md_description :: "string option"
  md_tags :: "string list option"

record AgentDefinition =
  ad_id :: string
  ad_model :: string
  ad_name :: "string option"
  ad_description :: "string option"
  ad_system_prompt :: "string option"
  ad_tools :: "string list option"
  ad_defaults :: "CallSettings option"

record ToolDefinition =
  td_id :: string
  td_kind :: string
  td_description :: "string option"
  td_spec :: "string option"
  td_function :: "string option"

record PromptDefinition =
  pd_id :: string
  pd_file :: string
  pd_description :: "string option"

record FlowEdge =
  edge_from :: string
  edge_to :: string
  edge_condition :: "string option"
  edge_label :: "string option"

record NodeInput =
  input_from :: string

record NodeOutput =
  output_label :: string
  output_condition :: "string option"

record NodeLayout =
  layout_x :: number
  layout_y :: number

record NodeBase =
  base_id :: string
  base_name :: "string option"
  base_description :: "string option"
  base_inputs :: "NodeInput list option"
  base_outputs :: "NodeOutput list option"
  base_layout :: "NodeLayout option"

datatype DecisionStrategy = Llm | Rule

text \<open>
  \<open>FlowNodeKindType\<close> is the union of the nine string literal types of the
  \<open>type\<close> fields; \<open>type_literal\<close> gives the literal each one stands for.
\<close>

datatype FlowNodeKindType =
  TInput | TOutput | TAgent | TDecision | TTool | TMerge | TParallel | TLoop | TSubflow

fun type_literal :: "FlowNodeKindType \<Rightarrow> string" where
  "type_literal TInput = ''input''"
| "type_literal TOutput = ''output''"
| "type_literal TAgent = ''agent''"
| "type_literal TDecision = ''decision''"
| "type_literal TTool = ''tool''"
| "type_literal TMerge = ''merge''"
| "type_literal TParallel = ''parallel''"
| "type_literal TLoop = ''loop''"
| "type_literal TSubflow = ''subflow''"

text \<open>
  The kind interfaces (\<open>InputNode\<close>, \<open>OutputNode\<close>, ...), one constructor each; the
  arguments are the interface's fields other than \<open>type\<close>, in declaration order.
\<close>

datatype FlowNodeKind =
  InputNode
| OutputNode
| AgentNode string "string option" "string list option" "CallSettings option"
| DecisionNode "string option" "DecisionStrategy option"
| ToolNode string
| MergeNode
| ParallelNode "bool option"
| LoopNode "number option" "string option"
| SubflowNode string

fun kind_type :: "FlowNodeKind \<Rightarrow> FlowNodeKindType" where
  "kind_type InputNode = TInput"
| "kind_type OutputNode = TOutput"
| "kind_type (AgentNode agent prompt tools parameters) = TAgent"
| "kind_type (DecisionNode prompt strategy) = TDecision"
| "kind_type (ToolNode tool) = TTool"
| "kind_type MergeNode = TMerge"
| "kind_type (ParallelNode converge) = TParallel"
| "kind_type (LoopNode max_iterations condition) = TLoop"
| "kind_type (SubflowNode flow) = TSubflow"

record FlowNode =
  node_base :: NodeBase
  node_kind :: FlowNodeKind

record FlowDefinition =
  flow_id :: string
  flow_entry :: string
  flow_nodes :: "FlowNode list"
  flow_edges :: "FlowEdge list"

record FlowDocument =
  doc_version :: string
  doc_metadata :: "FlowMetadata option"
  doc_agents :: "AgentDefinition list"
  doc_tools :: "ToolDefinition list"
  doc_prompts :: "PromptDefinition list"
  doc_flows :: "FlowDefinition list"

text \<open>The tag a node carries: the \<open>type\<close> literal of its kind (\<open>node.kind.type\<close>).\<close>

definition node_tag :: "FlowNode \<Rightarrow> string" where
  "node_tag n = type_literal (kind_type (node_kind n))"

text \<open>\<open>base.inputs ?? []\<close> and \<open>base.outputs ?? []\<close>: the declared slots of a node.\<close>

definition declared_inputs :: "FlowNode \<Rightarrow> NodeInput list" where
  "declared_inputs n = (case base_inputs (node_base n) of None \<Rightarrow> [] | Some xs \<Rightarrow> xs)"

definition declared_outputs :: "FlowNode \<Rightarrow> NodeOutput list" where
  "declared_outputs n = (case base_outputs (node_base n) of None \<Rightarrow> [] | Some xs \<Rightarrow> xs)"

section \<open>Node construction (frontend/src/utils/flowNodes.ts)\<close>

text \<open>
  \<open>uid(prefix)\<close> is \<open>prefix + "_" + Math.random().toString(16).slice(2, 6)\<close>. The
  random hexadecimal digits are the parameter \<open>rnd\<close>.
\<close>

definition uid :: "string \<Rightarrow> string \<Rightarrow> string" where
  "uid rnd prefix = prefix @ ''_'' @ rnd"

definition out_slot :: NodeOutput where
  "out_slot = \<lparr>output_label = ''out'', output_condition = None\<rparr>"

definition empty_input :: NodeInput where
  "empty_input = \<lparr>input_from = ''''\<rparr>"

text \<open>
  The object \<open>base\<close> that \<open>createFlowNode\<close> builds first:
  \<open>{ id: id ?? uid(type), inputs: [], outputs: [{ label: "out" }] }\<close>.
\<close>

definition default_base :: "string \<Rightarrow> FlowNodeKindType \<Rightarrow> string option \<Rightarrow> NodeBase" where
  "default_base rnd ty ident =
     \<lparr>base_id = (case ident of Some i \<Rightarrow> i | None \<Rightarrow> uid rnd (type_literal ty)),
      base_name = None, base_description = None,
      base_inputs = Some [], base_outputs = Some [out_slot], base_layout = None\<rparr>"

fun createFlowNode :: "string \<Rightarrow> FlowNodeKindType \<Rightarrow> string option \<Rightarrow> FlowNode" where
  "createFlowNode rnd TInput ident =
     \<lparr>node_base = (default_base rnd TInput ident)\<lparr>base_outputs := Some [out_slot]\<rparr>,
      node_kind = InputNode\<rparr>"
| "createFlowNode rnd TOutput ident =
     \<lparr>node_base = (default_base rnd TOutput ident)
        \<lparr>base_inputs := Some [empty_input], base_outputs := Some []\<rparr>,
      node_kind = OutputNode\<rparr>"
| "createFlowNode rnd TAgent ident =
     \<lparr>node_base = default_base rnd TAgent ident, node_kind = AgentNode '''' None None None\<rparr>"
| "createFlowNode rnd TDecision ident =
     \<lparr>node_base = (default_base rnd TDecision ident)\<lparr>base_outputs := Some []\<rparr>,
      node_kind = DecisionNode None (Some Llm)\<rparr>"
| "createFlowNode rnd TTool ident =
     \<lparr>node_base = default_base rnd TTool ident, node_kind = ToolNode ''''\<rparr>"
| "createFlowNode rnd TMerge ident =
     \<lparr>node_base = (default_base rnd TMerge ident)
        \<lparr>base_inputs := Some [empty_input, empty_input], base_outputs := Some [out_slot]\<rparr>,
      node_kind = MergeNode\<rparr>"
| "createFlowNode rnd TParallel ident =
     \<lparr>node_base = (default_base rnd TParallel ident)\<lparr>base_outputs := Some [out_slot]\<rparr>,
      node_kind = ParallelNode (Some True)\<rparr>"
| "createFlowNode rnd TLoop ident =
     \<lparr>node_base = (default_base rnd TLoop ident)\<lparr>base_outputs := Some [out_slot]\<rparr>,
      node_kind = LoopNode (Some 3) None\<rparr>"
| "createFlowNode rnd TSubflow ident =
     \<lparr>node_base = default_base rnd TSubflow ident, node_kind = SubflowNode ''''\<rparr>"

text \<open>
  \<open>getDefaultOutput(nodes, sourceId)\<close>: the first node with that id, then
  \<open>sourceNode?.base.outputs?.[0]?.label ?? "out"\<close>. Each \<open>?.\<close> that meets a missing
  node, a missing \<open>outputs\<close> or an empty array ends in \<open>"out"\<close>.
\<close>

definition getDefaultOutput :: "FlowNode list \<Rightarrow> string \<Rightarrow> string" where
  "getDefaultOutput nodes sourceId =
     (case find (\<lambda>n. base_id (node_base n) = sourceId) nodes of
        None \<Rightarrow> ''out''
      | Some sourceNode \<Rightarrow>
          (case base_outputs (node_base sourceNode) of
             None \<Rightarrow> ''out''
           | Some [] \<Rightarrow> ''out''
           | Some (out # rest) \<Rightarrow> output_label out))"

section \<open>The canvas (frontend/src/components/CanvasArea.tsx)\<close>

text \<open>
  React Flow's \<open>Connection\<close>: four fields of type \<open>string | null\<close>.
\<close>

record Connection =
  conn_source :: "string option"
  conn_target :: "string option"
  conn_sourceHandle :: "string option"
  conn_targetHandle :: "string option"

text \<open>
  \<open>handleConnect\<close> returns early when \<open>!connection.source || !connection.target\<close>: a
  \<open>null\<close> and the empty string are both falsy. Otherwise it hands \<open>onUpdateFlow\<close> the
  flow with one more edge. The model returns that flow, and \<open>None\<close> for the early return.
\<close>

definition handleConnect :: "FlowDefinition \<Rightarrow> Connection \<Rightarrow> FlowDefinition option" where
  "handleConnect flow connection =
     (case conn_source connection of
        None \<Rightarrow> None
      | Some source \<Rightarrow>
          (case conn_target connection of
             None \<Rightarrow> None
           | Some target \<Rightarrow>
               if source = [] \<or> target = [] then None
               else
                 let defaultOutput = getDefaultOutput (flow_nodes flow) source;
                     from_ref = source @ ''/'' @
                        (case conn_sourceHandle connection of
                           Some handle \<Rightarrow> handle
                         | None \<Rightarrow> defaultOutput);
                     to_ref = target
                 in Some (flow\<lparr>flow_edges := flow_edges flow @
                      [\<lparr>edge_from = from_ref, edge_to = to_ref,
                        edge_condition = None, edge_label = None\<rparr>]\<rparr>)))"

text \<open>
  \<open>s.split("/")\<close>: the pieces of \<open>s\<close> between the separators; never an empty array
  (\<open>"".split("/")\<close> is \<open>[""]\<close>), so the last case of the inner \<open>case\<close> is never taken.
\<close>

fun split_on :: "char \<Rightarrow> string \<Rightarrow> string list" where
  "split_on sep [] = [[]]"
| "split_on sep (c # cs) =
     (if c = sep then [] # split_on sep cs
      else (case split_on sep cs of
              p # ps \<Rightarrow> (c # p) # ps
            | [] \<Rightarrow> [[c]]))"

text \<open>
  Array destructuring \<open>[a, b] = xs\<close> reads \<open>xs[0]\<close> and \<open>xs[1]\<close>; an index past the
  end reads \<open>undefined\<close>, which is \<open>None\<close> here.
\<close>

definition at_index :: "'a list \<Rightarrow> nat \<Rightarrow> 'a option" where
  "at_index xs i = (if i < length xs then Some (xs ! i) else None)"

text \<open>The decimal rendering of an array index inside a template string.\<close>

fun show_nat :: "nat \<Rightarrow> string" where
  "show_nat n =
     (if n < 10 then [char_of (48 + n)]
      else show_nat (n div 10) @ [char_of (48 + n mod 10)])"

declare show_nat.simps [simp del]

text \<open>
  React Flow's \<open>Edge\<close>, with the fields \<open>mapEdges\<close> computes from the flow edge. The
  remaining fields of the object literal (\<open>animated\<close>, \<open>style\<close>, \<open>labelStyle\<close>,
  \<open>labelBgPadding\<close>) are constants of presentation and are left out.
\<close>

record Edge =
  rf_id :: string
  rf_source :: "string option"
  rf_target :: "string option"
  rf_sourceHandle :: "string option"
  rf_label :: "string option"

definition mapEdge :: "nat \<Rightarrow> FlowEdge \<Rightarrow> Edge" where
  "mapEdge idx edge =
     (let from_parts = split_on CHR ''/'' (edge_from edge);
          to_parts = split_on CHR ''/'' (edge_to edge)
      in \<lparr>rf_id = edge_from edge @ ''-'' @ edge_to edge @ ''-'' @ show_nat idx,
          rf_source = at_index from_parts 0,
          rf_target = at_index to_parts 0,
          rf_sourceHandle = at_index from_parts 1,
          rf_label = edge_label edge\<rparr>)"

definition mapEdges :: "FlowEdge list \<Rightarrow> Edge list" where
  "mapEdges edges = map (\<lambda>(idx, edge). mapEdge idx edge) (enumerate 0 edges)"

text \<open>
  The outputs that the flow declares for a node id: those of the first node carrying the
  id, none when no node carries it or the node has no \<open>outputs\<close>.
\<close>

definition source_outputs :: "FlowNode list \<Rightarrow> string \<Rightarrow> NodeOutput list" where
  "source_outputs nodes sourceId =
     (case find (\<lambda>n. base_id (node_base n) = sourceId) nodes of
        None \<Rightarrow> []
      | Some n \<Rightarrow> declared_outputs n)"

text \<open>
  The invariant of \<open>FlowEdge\<close> on the output label: it is the label of a declared output
  of the source node, or the implicit output \<open>"out"\<close> when none is declared.
\<close>

definition label_declared :: "FlowNode list \<Rightarrow> string \<Rightarrow> string \<Rightarrow> bool" where
  "label_declared nodes sourceId l =
     (l \<in> set (map output_label (source_outputs nodes sourceId))
      \<or> (source_outputs nodes sourceId = [] \<and> l = ''out''))"

text \<open>
  The rule the edge's label is said to follow: the connection's \<open>sourceHandle\<close> if it
  has one, otherwise the first declared output label of the source node, otherwise
  \<open>"out"\<close>.
\<close>

definition edge_label_rule :: "FlowNode list \<Rightarrow> Connection \<Rightarrow> string \<Rightarrow> string" where
  "edge_label_rule nodes connection sourceId =
     (case conn_sourceHandle connection of
        Some handle \<Rightarrow> handle
      | None \<Rightarrow>
          (case source_outputs nodes sourceId of
             [] \<Rightarrow> ''out''
           | out # rest \<Rightarrow> output_label out))"

section \<open>Editing a flow (the App component: frontend/src/utils/flowConfig.ts, unnamed/part_010)\<close>

text \<open>\<open>s.startsWith(p)\<close>: \<open>p\<close> is a prefix of \<open>s\<close>.\<close>

fun startsWith :: "string \<Rightarrow> string \<Rightarrow> bool" where
  "startsWith s [] = True"
| "startsWith [] (p # ps) = False"
| "startsWith (c # cs) (p # ps) = (c = p \<and> startsWith cs ps)"

text \<open>
  \<open>removeNode(nodeId)\<close> returns at once without an active flow. Otherwise it passes
  \<open>updateFlow\<close> the active flow with the node and the edges filtered, and selects the
  first remaining node (\<open>remainingNodes[0]?.base.id ?? null\<close>). The model returns the
  new flow and the new selection, \<open>None\<close> for the early return.
\<close>

definition removeNode ::
  "FlowDefinition option \<Rightarrow> string \<Rightarrow> (FlowDefinition \<times> string option) option" where
  "removeNode activeFlow nodeId =
     (case activeFlow of
        None \<Rightarrow> None
      | Some flow \<Rightarrow>
          let remainingNodes = filter (\<lambda>n. base_id (node_base n) \<noteq> nodeId) (flow_nodes flow)
          in Some
               (flow\<lparr>flow_nodes := remainingNodes,
                     flow_edges :=
                       filter (\<lambda>e. \<not> startsWith (edge_from e) nodeId
                                    \<and> \<not> startsWith (edge_to e) nodeId)
                              (flow_edges flow)\<rparr>,
                case remainingNodes of
                  [] \<Rightarrow> None
                | n # rest \<Rightarrow> Some (base_id (node_base n))))"

text \<open>
  The node an edge starts from and the node it leads to, as \<open>mapEdges\<close> reads them: the
  text of \<open>from\<close> (of \<open>to\<close>) before the first \<open>"/"\<close>.
\<close>

definition edge_source :: "FlowEdge \<Rightarrow> string option" where
  "edge_source e = at_index (split_on CHR ''/'' (edge_from e)) 0"

definition edge_target :: "FlowEdge \<Rightarrow> string option" where
  "edge_target e = at_index (split_on CHR ''/'' (edge_to e)) 0"

section \<open>The execution request (frontend/src/services/apiClient.ts)\<close>

text \<open>
  \<open>executeFlow\<close> sends each node flattened: \<open>{ ...n.base, ...n.kind }\<close>. An object is
  modelled as the list of its own properties, key and value, in property order; the values
  of a flattened node are the field types of \<open>NodeBase\<close> and of the kind interfaces.
\<close>

datatype FieldValue =
  FString string
| FStrings "string list"
| FNumber number
| FBool bool
| FInputs "NodeInput list"
| FOutputs "NodeOutput list"
| FLayout NodeLayout
| FSettings CallSettings
| FStrategy DecisionStrategy

type_synonym FlatNode = "(string \<times> FieldValue) list"

text \<open>An optional field is a property of the object only when it is present.\<close>

definition opt_field :: "string \<Rightarrow> ('a \<Rightarrow> FieldValue) \<Rightarrow> 'a option \<Rightarrow> FlatNode" where
  "opt_field key tag v = (case v of None \<Rightarrow> [] | Some x \<Rightarrow> [(key, tag x)])"

text \<open>
  The own properties of a \<open>NodeBase\<close> object and of a kind object, listed in the order
  of the interface declarations (the order plays no part in what follows).
\<close>

definition base_fields :: "NodeBase \<Rightarrow> FlatNode" where
  "base_fields b =
     [(''id'', FString (base_id b))]
     @ opt_field ''name'' FString (base_name b)
     @ opt_field ''description'' FString (base_description b)
     @ opt_field ''inputs'' FInputs (base_inputs b)
     @ opt_field ''outputs'' FOutputs (base_outputs b)
     @ opt_field ''layout'' FLayout (base_layout b)"

fun kind_fields :: "FlowNodeKind \<Rightarrow> FlatNode" where
  "kind_fields InputNode = [(''type'', FString ''input'')]"
| "kind_fields OutputNode = [(''type'', FString ''output'')]"
| "kind_fields (AgentNode agent prompt tools parameters) =
     [(''type'', FString ''agent''), (''agent'', FString agent)]
     @ opt_field ''prompt'' FString prompt
     @ opt_field ''tools'' FStrings tools
     @ opt_field ''parameters'' FSettings parameters"
| "kind_fields (DecisionNode prompt strategy) =
     [(''type'', FString ''decision'')]
     @ opt_field ''prompt'' FString prompt
     @ opt_field ''strategy'' FStrategy strategy"
| "kind_fields (ToolNode tool) = [(''type'', FString ''tool''), (''tool'', FString tool)]"
| "kind_fields MergeNode = [(''type'', FString ''merge'')]"
| "kind_fields (ParallelNode converge) =
     [(''type'', FString ''parallel'')] @ opt_field ''converge'' FBool converge"
| "kind_fields (LoopNode max_iterations condition) =
     [(''type'', FString ''loop'')]
     @ opt_field ''max_iterations'' FNumber max_iterations
     @ opt_field ''condition'' FString condition"
| "kind_fields (SubflowNode flow) = [(''type'', FString ''subflow''), (''flow'', FString flow)]"

text \<open>
  \<open>obj[k] = v\<close>: an existing property keeps its place and takes the new value, a new
  one is added last. Object spread \<open>{ ...target, ...src }\<close> sets the properties of
  \<open>src\<close> one after the other.
\<close>

fun obj_set :: "('k \<times> 'v) list \<Rightarrow> 'k \<Rightarrow> 'v \<Rightarrow> ('k \<times> 'v) list" where
  "obj_set [] k v = [(k, v)]"
| "obj_set ((k', v') # rest) k v =
     (if k' = k then (k, v) # rest else (k', v') # obj_set rest k v)"

definition spread :: "('k \<times> 'v) list \<Rightarrow> ('k \<times> 'v) list \<Rightarrow> ('k \<times> 'v) list" where
  "spread target src = foldl (\<lambda>acc (k, v). obj_set acc k v) target src"

definition flatten_node :: "FlowNode \<Rightarrow> FlatNode" where
  "flatten_node n = spread (spread [] (base_fields (node_base n))) (kind_fields (node_kind n))"

text \<open>
  The object \<open>backendFlow\<close>: \<open>{ ...flow, flows: ... }\<close> keeps every field of the
  document but \<open>flows\<close>, and \<open>{ ...f, nodes: ... }\<close> every field of a flow but
  \<open>nodes\<close>.
\<close>

record BackendFlow =
  bf_id :: string
  bf_entry :: string
  bf_nodes :: "FlatNode list"
  bf_edges :: "FlowEdge list"

record BackendDocument =
  bd_version :: string
  bd_metadata :: "FlowMetadata option"
  bd_agents :: "AgentDefinition list"
  bd_tools :: "ToolDefinition list"
  bd_prompts :: "PromptDefinition list"
  bd_flows :: "BackendFlow list"

definition backendFlow :: "FlowDocument \<Rightarrow> BackendDocument" where
  "backendFlow doc =
     \<lparr>bd_version = doc_version doc, bd_metadata = doc_metadata doc,
      bd_agents = doc_agents doc, bd_tools = doc_tools doc, bd_prompts = doc_prompts doc,
      bd_flows = map (\<lambda>f. \<lparr>bf_id = flow_id f, bf_entry = flow_entry f,
                             bf_nodes = map flatten_node (flow_nodes f),
                             bf_edges = flow_edges f\<rparr>) (doc_flows doc)\<rparr>"

text \<open>
  The request body, before \<open>JSON.stringify\<close>: \<open>{ flow: backendFlow, input, context }\<close>.
  The type of the context values is left open.
\<close>

record 'c ExecuteRequest =
  req_flow :: BackendDocument
  req_input :: string
  req_context :: "'c option"

definition executeFlow :: "FlowDocument \<Rightarrow> string \<Rightarrow> 'c option \<Rightarrow> 'c ExecuteRequest" where
  "executeFlow doc input context =
     \<lparr>req_flow = backendFlow doc, req_input = input, req_context = context\<rparr>"

text \<open>
  What the claim asks of a flattened node: its properties are those of the base together
  with those of the kind, the two sets of keys do not meet (so nothing is overwritten),
  and \<open>id\<close> is the node's id. A flow is carried over when its id, entry and edges are
  unchanged and its nodes are flattened one by one.
\<close>

definition node_flattened :: "FlowNode \<Rightarrow> FlatNode \<Rightarrow> bool" where
  "node_flattened n obj =
     (map_of obj = map_of (base_fields (node_base n)) ++ map_of (kind_fields (node_kind n))
      \<and> fst ` set (base_fields (node_base n)) \<inter> fst ` set (kind_fields (node_kind n)) = {}
      \<and> distinct (map fst obj)
      \<and> map_of obj ''id'' = Some (FString (base_id (node_base n))))"

definition flow_carried :: "FlowDefinition \<Rightarrow> BackendFlow \<Rightarrow> bool" where
  "flow_carried f bf =
     (bf_id bf = flow_id f \<and> bf_entry bf = flow_entry f \<and> bf_edges bf = flow_edges f
      \<and> length (bf_nodes bf) = length (flow_nodes f)
      \<and> list_all2 node_flattened (flow_nodes f) (bf_nodes bf))"

section \<open>Cleaning a document for export (utils/yaml: unnamed/part_008)\<close>

text \<open>
  The values \<open>deepClean\<close> walks: \<open>undefined\<close>, \<open>null\<close>, booleans, numbers,
  strings, arrays, and plain objects as the list of their entries (\<open>Object.entries\<close>:
  the own enumerable properties, in enumeration order). The prototype of an object is not
  part of the value: \<open>shouldDrop\<close> and \<open>deepClean\<close> read an object through
  \<open>Object.keys\<close> and \<open>Object.entries\<close> only, which do not look at it. A string is a
  list of 8-bit characters, so the model covers the strings whose code units lie below
  256.
\<close>

datatype json =
  JUndefined
| JNull
| JBool bool
| JNumber number
| JString string
| JArray "json list"
| JObject "(string \<times> json) list"

text \<open>
  \<open>s.trim()\<close> strips white space and line terminators from both ends; below 256 these
  are TAB, LF, VT, FF, CR, SP and NBSP.
\<close>

definition is_space :: "char \<Rightarrow> bool" where
  "is_space c = (c \<in> set [CHR 0x09, CHR 0x0A, CHR 0x0B, CHR 0x0C, CHR 0x0D, CHR 0x20, CHR 0xA0])"

definition trim :: "string \<Rightarrow> string" where
  "trim s = rev (dropWhile is_space (rev (dropWhile is_space s)))"

text \<open>
  \<open>shouldDrop\<close>: \<open>undefined\<close>, \<open>null\<close>, a string that trims to \<open>""\<close>, an array of
  length 0, an object with no keys.
\<close>

fun shouldDrop :: "json \<Rightarrow> bool" where
  "shouldDrop JUndefined = True"
| "shouldDrop JNull = True"
| "shouldDrop (JString s) = (trim s = [])"
| "shouldDrop (JArray xs) = (length xs = 0)"
| "shouldDrop (JObject es) = (length (map fst es) = 0)"
| "shouldDrop v = False"

text \<open>
  \<open>acc[key] = val\<close> in the \<open>reduce\<close> of \<open>deepClean\<close>, where \<open>acc\<close> starts as
  \<open>{}\<close>. The assignment is an ordinary property write, except for the key
  \<open>"__proto__"\<close>: that one runs the setter inherited from \<open>Object.prototype\<close>, which
  replaces the prototype of \<open>acc\<close> when \<open>val\<close> is an object and does nothing otherwise,
  and in neither case writes an own property. (An entry with that key exists when the
  object was read by \<open>JSON.parse\<close> or a YAML parser.) The prototypes \<open>acc\<close> can get
  this way hold writable data properties only, so the writes that follow still add own
  properties.
\<close>

definition assign :: "(string \<times> json) list \<Rightarrow> string \<Rightarrow> json \<Rightarrow> (string \<times> json) list" where
  "assign acc key val = (if key = ''__proto__'' then acc else obj_set acc key val)"

text \<open>
  \<open>deepClean\<close>: an array is cleaned item by item and the droppable results are
  filtered out; an object likewise entry by entry, and the entries kept are written into
  a fresh object by \<open>reduce\<close> (\<open>acc[key] = val\<close>); any other value is returned as it is.
\<close>

fun deepClean :: "json \<Rightarrow> json" where
  "deepClean (JArray xs) =
     (let cleaned = filter (\<lambda>item. \<not> shouldDrop item) (map deepClean xs)
      in JArray cleaned)"
| "deepClean (JObject es) =
     (let entries = filter (\<lambda>(key, val). \<not> shouldDrop val)
                      (map (\<lambda>(key, val). (key, deepClean val)) es)
      in JObject (foldl (\<lambda>acc (key, val). assign acc key val) [] entries))"
| "deepClean v = v"

text \<open>
  \<open>normalizeDocument(doc)\<close>. \<open>doc.version?.trim()\<close> is \<open>undefined\<close> for a missing,
  \<open>undefined\<close> or \<open>null\<close> version, the trimmed text for a string, and a
  \<open>TypeError\<close> for any other value (it has no \<open>trim\<close>). \<open>x || "0.1"\<close> replaces
  \<open>undefined\<close> and \<open>""\<close>. The document is the list of its entries; it is a value
  as a parser or the editor makes it, with the prototype of a plain object, so
  \<open>doc.version\<close> is read from the entries. The spread \<open>{ ...doc, version }\<close> defines own
  properties, the key \<open>"__proto__"\<close> included.
\<close>

datatype error = TypeError

definition version_trimmed :: "(string \<times> json) list \<Rightarrow> error + string option" where
  "version_trimmed doc =
     (case map_of doc ''version'' of
        None \<Rightarrow> Inr None
      | Some JUndefined \<Rightarrow> Inr None
      | Some JNull \<Rightarrow> Inr None
      | Some (JString s) \<Rightarrow> Inr (Some (trim s))
      | Some other \<Rightarrow> Inl TypeError)"

definition or_default :: "string option \<Rightarrow> string" where
  "or_default t = (case t of None \<Rightarrow> ''0.1'' | Some v \<Rightarrow> if v = [] then ''0.1'' else v)"

definition normalizeDocument :: "(string \<times> json) list \<Rightarrow> error + json" where
  "normalizeDocument doc =
     (case version_trimmed doc of
        Inl e \<Rightarrow> Inl e
      | Inr t \<Rightarrow>
          let version = or_default t;
              cleaned = deepClean (JObject (obj_set (spread [] doc) ''version'' (JString version)))
          in Inr cleaned)"

text \<open>
  \<open>normalizeDocument\<close> applied to its own result. The result of the first call may have
  got another prototype from \<open>deepClean\<close>; it has \<open>version\<close> as an own property, so
  the second call reads \<open>doc.version\<close> from the entries as well.
\<close>

definition normalizeDocument_twice :: "(string \<times> json) list \<Rightarrow> error + json" where
  "normalizeDocument_twice doc =
     (case normalizeDocument doc of
        Inl e \<Rightarrow> Inl e
      | Inr (JObject es) \<Rightarrow> normalizeDocument es
      | Inr other \<Rightarrow> Inl TypeError)"

text \<open>
  No value below the root of \<open>v\<close>, at any depth, is one that \<open>shouldDrop\<close> drops; and
  the same with the root included.
\<close>

fun no_droppable_inside :: "json \<Rightarrow> bool" where
  "no_droppable_inside (JArray xs) =
     list_all (\<lambda>x. \<not> shouldDrop x \<and> no_droppable_inside x) xs"
| "no_droppable_inside (JObject es) =
     list_all (\<lambda>(k, x). \<not> shouldDrop x \<and> no_droppable_inside x) es"
| "no_droppable_inside v = True"

definition no_droppable_anywhere :: "json \<Rightarrow> bool" where
  "no_droppable_anywhere v = (\<not> shouldDrop v \<and> no_droppable_inside v)"

section \<open>The node editor (the NodeEditor component: unnamed/part_005)\<close>

text \<open>
  The flows offered for a Subflow node: \<open>availableFlows\<close> without those whose id is the
  id of the first flow that holds a node with the edited node's id. When no flow holds
  such a node, \<open>find(...)?.id\<close> is \<open>undefined\<close> and every flow is offered.
\<close>

definition subflow_choices :: "FlowDefinition list \<Rightarrow> NodeBase \<Rightarrow> FlowDefinition list" where
  "subflow_choices availableFlows base =
     filter (\<lambda>f. Some (flow_id f) \<noteq>
                  map_option flow_id
                    (find (\<lambda>af. list_ex (\<lambda>n. base_id (node_base n) = base_id base)
                                    (flow_nodes af))
                       availableFlows))
       availableFlows"

text \<open>A flow holds a node with the id of \<open>base\<close>.\<close>

definition holds_node :: "NodeBase \<Rightarrow> FlowDefinition \<Rightarrow> bool" where
  "holds_node base af = list_ex (\<lambda>n. base_id (node_base n) = base_id base) (flow_nodes af)"

section \<open>The flow engine, modelled from the specification\<close>

text \<open>
  Modelled from the spec: the values bound at node outputs. The engine is the
  repository's Rust crate and is not among the TypeScript sources; section 4.4 of the
  specification makes a Merge node's value "the ordered collection of all input values",
  so a value is a text or a collection of values.
\<close>

datatype Value = Text string | Collection "Value list"

text \<open>
  Modelled from the spec: a turn of the transcript ("the ordered history of
  conversational turns"), with the node that produced it.
\<close>

record Turn =
  turn_node :: string
  turn_text :: string

text \<open>
  Modelled from the spec: the error taxonomy of section 7, one constructor per class:
  (a) validation, (b) structural (dead end, subflow recursion), (c) provider, (d) tool,
  (e) decision.
\<close>

datatype Failure =
  ValidationFailure string
| DeadEnd string
| CycleDetected string
| ProviderFailure string
| ToolFailure string
| DecisionFailure string

text \<open>
  Modelled from the spec: the ExecutionContext of section 3, "an ordered transcript of
  turns, a mapping from \<open>"<nodeId>/<outputLabel>"\<close> to the value produced there, a call
  stack of in-flight subflow ids, and a per-loop-node iteration counter". The counters
  are kept in the order in which their Loop nodes were entered.
\<close>

record ExecutionContext =
  ctx_transcript :: "Turn list"
  ctx_bindings :: "(string \<times> Value) list"
  ctx_stack :: "string list"
  ctx_iterations :: "(string \<times> nat) list"

text \<open>
  Modelled from the spec: the node handlers that talk to the external collaborators of
  section 6 (model provider, tool registry, prompt loader) and the evaluation of guard
  conditions are parameters of the engine. A handler is given the node, the task input
  and the context; it fails, or returns the output label it chose, the value produced
  there and the turns it recorded. The handlers of Merge, Loop, Subflow and Output nodes
  are not part of the parameter: the specification fixes them, and they are modelled
  below.
\<close>

type_synonym Handler =
  "FlowNode \<Rightarrow> string \<Rightarrow> ExecutionContext \<Rightarrow> Failure + (string \<times> Value \<times> Turn list)"

text \<open>
  Modelled from the spec: the evaluation of a guard or break condition "against the
  current context" (section 4.1); the expression language is not given, so the evaluator
  is a parameter.
\<close>

type_synonym Guard = "string \<Rightarrow> ExecutionContext \<Rightarrow> bool"

text \<open>
  Modelled from the spec: what a run is given (section 6, \<open>run(flowDocument, flowId,
  taskInput, options)\<close>): the document, the task input, and the collaborators behind
  the handlers and the guards.
\<close>

record Engine =
  eng_document :: FlowDocument
  eng_task :: string
  eng_handler :: Handler
  eng_holds :: Guard

text \<open>
  Modelled from the spec: one flow invocation in flight (the top-level run or a nested
  subflow run, each of which "owns an independent ExecutionContext", section 5): its
  flow, its context, its ready nodes, the nodes that have fired so far (the "audit trail
  of every step taken", section 1) and, for a subflow run, the Subflow node of the caller
  that awaits it.
\<close>

record Frame =
  fr_flow :: FlowDefinition
  fr_ctx :: ExecutionContext
  fr_ready :: "string list"
  fr_events :: "string list"
  fr_caller :: string

text \<open>
  Modelled from the spec: the state of a run. It is in progress, with its invocations
  innermost first, or it has ended with "a terminal output value plus the full
  transcript, or a typed failure" (section 4.1); a failure keeps the transcript written
  so far (section 5: "cancellation does not roll back already-committed transcript
  entries").
\<close>

datatype Run =
  Running Frame "Frame list"
| Finished Value "Turn list"
| Failed Failure "Turn list"

text \<open>
  Modelled from the spec: a flow is looked up by its id (section 9: "store flows by id in
  a lookup table").
\<close>

definition find_flow :: "FlowDocument \<Rightarrow> string \<Rightarrow> FlowDefinition option" where
  "find_flow doc flowId = find (\<lambda>f. flow_id f = flowId) (doc_flows doc)"

text \<open>
  Modelled from the spec: a node is looked up by its id, unique within the flow
  (section 3).
\<close>

definition find_node :: "FlowDefinition \<Rightarrow> string \<Rightarrow> FlowNode option" where
  "find_node flow nodeId = find (\<lambda>n. base_id (node_base n) = nodeId) (flow_nodes flow)"

text \<open>
  Modelled from the spec: a slot \<open>"<nodeId>/<outputLabel>"\<close> has produced a value when
  the context binds it (section 3).
\<close>

definition produced :: "ExecutionContext \<Rightarrow> string \<Rightarrow> Value option" where
  "produced ctx slot = map_of (ctx_bindings ctx) slot"

text \<open>
  Modelled from the spec: the join rule of section 4.1, a node is satisfied when "all of
  its declared inputs are satisfied".
\<close>

definition satisfied :: "ExecutionContext \<Rightarrow> FlowNode \<Rightarrow> bool" where
  "satisfied ctx node =
     list_all (\<lambda>i. produced ctx (input_from i) \<noteq> None) (declared_inputs node)"

text \<open>
  Modelled from the spec: the sole output of a node, its first declared output or "the
  implicit single output if none declared" (section 3).
\<close>

definition sole_output :: "FlowNode \<Rightarrow> string" where
  "sole_output node =
     (case declared_outputs node of [] \<Rightarrow> ''out'' | out # rest \<Rightarrow> output_label out)"

text \<open>
  Modelled from the spec: the values that have arrived at a node, in "edge declaration
  order" (section 4.4).
\<close>

definition incoming_values :: "FlowDefinition \<Rightarrow> ExecutionContext \<Rightarrow> string \<Rightarrow> Value list" where
  "incoming_values flow ctx nodeId =
     List.map_filter (\<lambda>e. if edge_to e = nodeId then produced ctx (edge_from e) else None)
       (flow_edges flow)"

text \<open>
  Modelled from the spec: the values of the declared inputs of a node, "the ordered
  collection of all input values (ordering = edge declaration order)" of section 4.4: the
  inputs that an edge into the node carries come in the order of these edges, and the
  inputs that no edge carries follow in the order of their declaration.
\<close>

definition input_slots :: "FlowDefinition \<Rightarrow> FlowNode \<Rightarrow> string list" where
  "input_slots flow node =
     (let declared = map input_from (declared_inputs node)
      in remdups
           (map edge_from
              (filter (\<lambda>e. edge_to e = base_id (node_base node) \<and> edge_from e \<in> set declared)
                 (flow_edges flow))
            @ declared))"

definition input_values :: "FlowDefinition \<Rightarrow> ExecutionContext \<Rightarrow> FlowNode \<Rightarrow> Value list" where
  "input_values flow ctx node = List.map_filter (produced ctx) (input_slots flow node)"

text \<open>
  Modelled from the spec: the guard of an edge, true when the edge has no condition or
  its condition "evaluates true against the current context" (section 4.1).
\<close>

definition guard_true :: "Engine \<Rightarrow> ExecutionContext \<Rightarrow> FlowEdge \<Rightarrow> bool" where
  "guard_true eng ctx e =
     (case edge_condition e of None \<Rightarrow> True | Some c \<Rightarrow> eng_holds eng c ctx)"

text \<open>
  Modelled from the spec: "each resolved edge's target becomes ready once all of its
  declared inputs are satisfied" (section 4.1).
\<close>

definition becomes_ready :: "FlowDefinition \<Rightarrow> ExecutionContext \<Rightarrow> string \<Rightarrow> bool" where
  "becomes_ready flow ctx target =
     (case find_node flow target of None \<Rightarrow> False | Some node \<Rightarrow> satisfied ctx node)"

text \<open>
  Modelled from the spec: the "outgoing edges" of a node at an output label (section
  4.1), in edge order.
\<close>

definition outgoing :: "FlowDefinition \<Rightarrow> string \<Rightarrow> string \<Rightarrow> FlowEdge list" where
  "outgoing flow nodeId label =
     filter (\<lambda>e. edge_from e = nodeId @ ''/'' @ label) (flow_edges flow)"

text \<open>
  Modelled from the spec: the Merge nodes that wait for a slot. A Merge node "fires once
  every declared input has produced a value" (section 4.4), so the value that completes
  its declared inputs makes it ready whether or not an edge into it is resolved at that
  moment.
\<close>

definition joined :: "FlowDefinition \<Rightarrow> string \<Rightarrow> string list" where
  "joined flow slot =
     map (\<lambda>n. base_id (node_base n))
       (filter (\<lambda>n. node_kind n = MergeNode \<and> slot \<in> set (map input_from (declared_inputs n)))
          (flow_nodes flow))"

text \<open>
  Modelled from the spec: what the interpreter does with a handler's result (sections 3
  and 4.1): it binds the value at \<open>"<nodeId>/<outputLabel>"\<close>, appends the turns to the
  transcript, records the node as fired and resolves the outgoing edges it is given,
  those "whose guard condition (if present) evaluates true against the current context".
  The targets of the resolved edges and the Merge nodes that wait for the slot become
  ready when all their declared inputs are satisfied; the ready nodes are a set
  ("maintain a ready set"), so a node that is ready already is not added again.
\<close>

definition emit_along ::
  "Engine \<Rightarrow> Frame \<Rightarrow> string \<Rightarrow> string \<Rightarrow> Value \<Rightarrow> Turn list \<Rightarrow> FlowEdge list \<Rightarrow> Frame" where
  "emit_along eng fr nodeId label v turns edges =
     (let slot = nodeId @ ''/'' @ label;
          ctx = (fr_ctx fr)
            \<lparr>ctx_bindings := (slot, v) # ctx_bindings (fr_ctx fr),
             ctx_transcript := ctx_transcript (fr_ctx fr) @ turns\<rparr>;
          targets = map edge_to (filter (guard_true eng ctx) edges) @ joined (fr_flow fr) slot
      in fr\<lparr>fr_ctx := ctx,
            fr_ready := fr_ready fr
              @ filter (\<lambda>t. t \<notin> set (fr_ready fr) \<and> becomes_ready (fr_flow fr) ctx t)
                  (remdups targets),
            fr_events := fr_events fr @ [nodeId]\<rparr>)"

text \<open>
  Modelled from the spec: the result of a node other than a Loop node resolves all the
  outgoing edges of the output label (section 4.1).
\<close>

definition emit ::
  "Engine \<Rightarrow> Frame \<Rightarrow> string \<Rightarrow> string \<Rightarrow> Value \<Rightarrow> Turn list \<Rightarrow> Frame" where
  "emit eng fr nodeId label v turns =
     emit_along eng fr nodeId label v turns (outgoing (fr_flow fr) nodeId label)"

text \<open>
  Modelled from the spec: the invocation a Subflow node starts (section 4.7). The nested
  run gets "a fresh child ExecutionContext whose transcript is seeded from the parent's
  transcript", and "the engine pushes the target flow id onto the call stack".
\<close>

definition child_frame ::
  "string \<Rightarrow> FlowDefinition \<Rightarrow> ExecutionContext \<Rightarrow> string \<Rightarrow> Frame" where
  "child_frame target child parent_ctx caller =
     \<lparr>fr_flow = child,
      fr_ctx = \<lparr>ctx_transcript = ctx_transcript parent_ctx, ctx_bindings = [],
                ctx_stack = target # ctx_stack parent_ctx, ctx_iterations = []\<rparr>,
      fr_ready = [flow_entry child], fr_events = [], fr_caller = caller\<rparr>"

text \<open>
  Modelled from the spec: the Subflow node handler (section 4.7). "Before invoking, the
  engine pushes the target flow id onto the call stack; if the id is already present on
  the stack, the run fails immediately with a cycle-detected error rather than
  recursing." A target that names no flow of the document is a validation failure.
\<close>

definition subflow_handler ::
  "Engine \<Rightarrow> Frame \<Rightarrow> Frame list \<Rightarrow> string \<Rightarrow> string \<Rightarrow> Run" where
  "subflow_handler eng fr frs nodeId target =
     (if target \<in> set (ctx_stack (fr_ctx fr))
      then Failed (CycleDetected target) (ctx_transcript (fr_ctx fr))
      else (case find_flow (eng_document eng) target of
              None \<Rightarrow> Failed (ValidationFailure target) (ctx_transcript (fr_ctx fr))
            | Some child \<Rightarrow>
                Running (child_frame target child (fr_ctx fr) nodeId) (fr # frs)))"

text \<open>
  Modelled from the spec: the Merge node handler (section 4.4), a "structural join only"
  that "fires once every declared input has produced a value" and "does not itself call a
  model. Its output binding is the ordered collection of all input values". A Merge node
  that is not satisfied does nothing.
\<close>

definition merge_handler :: "Engine \<Rightarrow> Frame \<Rightarrow> FlowNode \<Rightarrow> Frame" where
  "merge_handler eng fr node =
     (if satisfied (fr_ctx fr) node
      then emit eng fr (base_id (node_base node)) (sole_output node)
             (Collection (input_values (fr_flow fr) (fr_ctx fr) node)) []
      else fr)"

text \<open>
  Modelled from the spec: the iteration counter of a Loop node (section 3), zero for a
  node that has no counter yet, and the Loop nodes entered before it that are still
  counted: the loops that enclose it.
\<close>

definition iteration :: "ExecutionContext \<Rightarrow> string \<Rightarrow> nat" where
  "iteration ctx nodeId =
     (case map_of (ctx_iterations ctx) nodeId of None \<Rightarrow> 0 | Some c \<Rightarrow> c)"

definition enclosing :: "ExecutionContext \<Rightarrow> string \<Rightarrow> (string \<times> nat) list" where
  "enclosing ctx nodeId = takeWhile (\<lambda>(l, c). l \<noteq> nodeId) (ctx_iterations ctx)"

text \<open>
  Modelled from the spec: the counter of a Loop node is set. The counters of the Loop
  nodes entered after it are dropped: these loops lie in its body, and on the next
  iteration they are "freshly entered" (section 4.6: the counter "is reset only when the
  loop node itself is freshly entered (not on each iteration)").
\<close>

definition count_iteration :: "ExecutionContext \<Rightarrow> string \<Rightarrow> nat \<Rightarrow> ExecutionContext" where
  "count_iteration ctx nodeId c =
     ctx\<lparr>ctx_iterations := enclosing ctx nodeId @ [(nodeId, c)]\<rparr>"

text \<open>
  Modelled from the spec: the nodes an edge or an input slot \<open>"<nodeId>/<outputLabel>"\<close>
  may come from. Node ids and labels are free text, so every part of the slot before one
  of its slashes is taken.
\<close>

definition slot_sources :: "string \<Rightarrow> string list" where
  "slot_sources slot =
     map (\<lambda>i. take i slot) (filter (\<lambda>i. slot ! i = CHR ''/'') [0..<length slot])"

text \<open>
  Modelled from the spec: the body of a Loop node, "a designated body reachable through
  its single output" that the handler executes "repeatedly" (sections 3 and 4.6). An
  outgoing edge of the Loop node leads into the body when the Loop node can be reached
  again from the edge's target, along edges and without passing through a loop that
  encloses it; the other outgoing edges lead on from the loop.
\<close>

definition successors :: "FlowDefinition \<Rightarrow> string \<Rightarrow> string list" where
  "successors flow n =
     map edge_to (filter (\<lambda>e. n \<in> set (slot_sources (edge_from e))) (flow_edges flow))"

fun reached :: "FlowDefinition \<Rightarrow> string list \<Rightarrow> nat \<Rightarrow> string list \<Rightarrow> string list" where
  "reached flow avoid 0 ns = ns"
| "reached flow avoid (Suc k) ns =
     reached flow avoid k
       (remdups (ns @ concat (map (successors flow) (filter (\<lambda>n. n \<notin> set avoid) ns))))"

definition leads_back :: "FlowDefinition \<Rightarrow> string list \<Rightarrow> string \<Rightarrow> string \<Rightarrow> bool" where
  "leads_back flow avoid loopId target =
     (loopId \<in> set (reached flow avoid (length (flow_edges flow)) [target]))"

definition body_edges :: "FlowDefinition \<Rightarrow> ExecutionContext \<Rightarrow> FlowNode \<Rightarrow> FlowEdge list" where
  "body_edges flow ctx node =
     filter (\<lambda>e. leads_back flow (map fst (enclosing ctx (base_id (node_base node))))
                   (base_id (node_base node)) (edge_to e))
       (outgoing flow (base_id (node_base node)) (sole_output node))"

definition onward_edges :: "FlowDefinition \<Rightarrow> ExecutionContext \<Rightarrow> FlowNode \<Rightarrow> FlowEdge list" where
  "onward_edges flow ctx node =
     filter (\<lambda>e. \<not> leads_back flow (map fst (enclosing ctx (base_id (node_base node))))
                     (base_id (node_base node)) (edge_to e))
       (outgoing flow (base_id (node_base node)) (sole_output node))"

text \<open>
  Modelled from the spec: the break condition of a Loop node, "evaluated against the
  context after each iteration" (section 3); a Loop node without one never breaks.
\<close>

definition loop_breaks :: "Engine \<Rightarrow> ExecutionContext \<Rightarrow> FlowNode \<Rightarrow> bool" where
  "loop_breaks eng ctx node =
     (case node_kind node of
        LoopNode max_iterations (Some condition) \<Rightarrow> eng_holds eng condition ctx
      | other \<Rightarrow> False)"

text \<open>
  Modelled from the spec: the Loop node handler (section 4.6), which has the body
  executed "until either the break condition evaluates true against the post-iteration
  context or the iteration count reaches the configured maximum, whichever comes first";
  "reaching the maximum without the condition becoming true is not an error". The Loop
  node is ready when it is entered and again whenever its body has led back to it. While
  the count is below the maximum, and the break condition does not hold after an
  iteration, it counts one more iteration and resolves the edges into its body. Otherwise
  it is left: it resolves the edges that lead on, and its counter is set beyond the
  maximum, so that a later return from the body starts nothing. A Loop node without a
  body is left at once. The loop calls no model; the value at its output is the
  collection of the values that have arrived at it.
\<close>

definition loop_handler :: "Engine \<Rightarrow> Frame \<Rightarrow> FlowNode \<Rightarrow> nat \<Rightarrow> Frame" where
  "loop_handler eng fr node limit =
     (let nodeId = base_id (node_base node);
          c = iteration (fr_ctx fr) nodeId;
          v = Collection (incoming_values (fr_flow fr) (fr_ctx fr) nodeId);
          body = body_edges (fr_flow fr) (fr_ctx fr) node;
          onward = onward_edges (fr_flow fr) (fr_ctx fr) node
      in if limit < c then fr
         else if c < limit \<and> body \<noteq> [] \<and> \<not> (0 < c \<and> loop_breaks eng (fr_ctx fr) node)
         then emit_along eng (fr\<lparr>fr_ctx := count_iteration (fr_ctx fr) nodeId (Suc c)\<rparr>)
                nodeId (sole_output node) v [] body
         else emit_along eng (fr\<lparr>fr_ctx := count_iteration (fr_ctx fr) nodeId (Suc limit)\<rparr>)
                nodeId (sole_output node) v [] onward)"

text \<open>
  Modelled from the spec: the Output node. "Reaching an Output node with all its inputs
  satisfied ends the run successfully" (section 4.1), with "a terminal output value plus
  the full transcript". When the run is a subflow run, "the child's designated output is
  bound into the parent's context" (section 4.7) at the sole output of the calling
  Subflow node, the turns the child has added to the transcript it was seeded with are
  added to the parent's transcript ("whose writes do not mutate the parent until the child
  run completes"), and the parent goes on.
\<close>

definition output_handler :: "Engine \<Rightarrow> Frame \<Rightarrow> Frame list \<Rightarrow> FlowNode \<Rightarrow> Run" where
  "output_handler eng fr frs node =
     (if \<not> satisfied (fr_ctx fr) node then Running fr frs
      else
        let v = Collection (incoming_values (fr_flow fr) (fr_ctx fr) (base_id (node_base node)))
        in (case frs of
              [] \<Rightarrow> Finished v (ctx_transcript (fr_ctx fr))
            | parent # outer \<Rightarrow>
                (case find_node (fr_flow parent) (fr_caller fr) of
                   None \<Rightarrow> Failed (ValidationFailure (fr_caller fr)) (ctx_transcript (fr_ctx fr))
                 | Some caller \<Rightarrow>
                     Running
                       (emit eng parent (fr_caller fr) (sole_output caller) v
                          (drop (length (ctx_transcript (fr_ctx parent)))
                             (ctx_transcript (fr_ctx fr))))
                       outer)))"

text \<open>
  Modelled from the spec: one turn of the driver loop of section 4.1, "repeatedly pop a
  ready node, invoke its handler" and resolve its outgoing edges. "No ready nodes remain
  and no Output was reached" is "a dead-end failure". A Loop node "has a maximum
  iteration count" (section 3); one without it fails validation. A run that has ended
  stays as it is.
\<close>

definition step :: "Engine \<Rightarrow> Run \<Rightarrow> Run" where
  "step eng run =
     (case run of
        Running fr frs \<Rightarrow>
          (case fr_ready fr of
             [] \<Rightarrow> Failed (DeadEnd (flow_id (fr_flow fr))) (ctx_transcript (fr_ctx fr))
           | nodeId # rest \<Rightarrow>
               let popped = fr\<lparr>fr_ready := rest\<rparr> in
               (case find_node (fr_flow fr) nodeId of
                  None \<Rightarrow> Failed (ValidationFailure nodeId) (ctx_transcript (fr_ctx fr))
                | Some node \<Rightarrow>
                    (case node_kind node of
                       OutputNode \<Rightarrow> output_handler eng popped frs node
                     | MergeNode \<Rightarrow> Running (merge_handler eng popped node) frs
                     | SubflowNode target \<Rightarrow> subflow_handler eng popped frs nodeId target
                     | LoopNode max_iterations condition \<Rightarrow>
                         (case max_iterations of
                            None \<Rightarrow> Failed (ValidationFailure nodeId) (ctx_transcript (fr_ctx fr))
                          | Some limit \<Rightarrow>
                              Running (loop_handler eng popped node (nat \<lfloor>limit\<rfloor>)) frs)
                     | other \<Rightarrow>
                         (case eng_handler eng node (eng_task eng) (fr_ctx fr) of
                            Inl failure \<Rightarrow> Failed failure (ctx_transcript (fr_ctx fr))
                          | Inr (label, v, turns) \<Rightarrow>
                              Running (emit eng popped nodeId label v turns) frs))))
      | Finished v transcript \<Rightarrow> Finished v transcript
      | Failed failure transcript \<Rightarrow> Failed failure transcript)"

text \<open>
  Modelled from the spec: the driver loop of section 4.1 run for \<open>n\<close> turns.
\<close>

fun steps :: "nat \<Rightarrow> Engine \<Rightarrow> Run \<Rightarrow> Run" where
  "steps 0 eng run = run"
| "steps (Suc n) eng run = steps n eng (step eng run)"

text \<open>
  Modelled from the spec: the start of a run (section 4.1: "maintain a ready set seeded
  with the entry node"). The flow that is run is in flight from the start, so its id is
  on the call stack: section 3 forbids "recursive self-reference through any depth".
\<close>

definition start :: "Engine \<Rightarrow> string \<Rightarrow> Run" where
  "start eng flowId =
     (case find_flow (eng_document eng) flowId of
        None \<Rightarrow> Failed (ValidationFailure flowId) []
      | Some flow \<Rightarrow>
          Running \<lparr>fr_flow = flow,
                   fr_ctx = \<lparr>ctx_transcript = [], ctx_bindings = [],
                             ctx_stack = [flowId], ctx_iterations = []\<rparr>,
                   fr_ready = [flow_entry flow], fr_events = [], fr_caller = []\<rparr> [])"

text \<open>
  The invariants of a run used below. Every Merge node a frame records as fired is
  satisfied in the frame's context, and every Merge node with declared inputs that is
  satisfied has fired or is ready; the flow of a frame is the one the document gives for
  its id; every nested frame is awaited by a Subflow node of its caller that names its
  flow; and the call stack of a frame is the list of the flows in flight from it
  outwards, none of them twice.
\<close>

definition merges_ok :: "Frame \<Rightarrow> bool" where
  "merges_ok fr =
     list_all (\<lambda>m. case find_node (fr_flow fr) m of
                      None \<Rightarrow> True
                    | Some node \<Rightarrow> node_kind node = MergeNode \<longrightarrow> satisfied (fr_ctx fr) node)
       (fr_events fr)"

definition joins_ok :: "Frame \<Rightarrow> bool" where
  "joins_ok fr =
     list_all (\<lambda>node. find_node (fr_flow fr) (base_id (node_base node)) = Some node
                    \<and> node_kind node = MergeNode \<and> declared_inputs node \<noteq> []
                    \<and> satisfied (fr_ctx fr) node
                  \<longrightarrow> base_id (node_base node) \<in> set (fr_events fr)
                    \<or> base_id (node_base node) \<in> set (fr_ready fr))
       (flow_nodes (fr_flow fr))"

definition known :: "Engine \<Rightarrow> Frame \<Rightarrow> bool" where
  "known eng fr =
     (find_flow (eng_document eng) (flow_id (fr_flow fr)) = Some (fr_flow fr))"

fun callers_ok :: "Frame \<Rightarrow> Frame list \<Rightarrow> bool" where
  "callers_ok fr [] = True"
| "callers_ok fr (parent # outer) =
     ((case find_node (fr_flow parent) (fr_caller fr) of
         None \<Rightarrow> False
       | Some node \<Rightarrow> node_kind node = SubflowNode (flow_id (fr_flow fr)))
      \<and> callers_ok parent outer)"

fun stack_ok :: "Frame \<Rightarrow> Frame list \<Rightarrow> bool" where
  "stack_ok fr [] = (ctx_stack (fr_ctx fr) = [flow_id (fr_flow fr)])"
| "stack_ok fr (parent # outer) =
     (ctx_stack (fr_ctx fr) = flow_id (fr_flow fr) # ctx_stack (fr_ctx parent)
      \<and> flow_id (fr_flow fr) \<notin> set (ctx_stack (fr_ctx parent))
      \<and> stack_ok parent outer)"

fun run_ok :: "Engine \<Rightarrow> Run \<Rightarrow> bool" where
  "run_ok eng (Running fr frs) =
     (list_all merges_ok (fr # frs) \<and> list_all joins_ok (fr # frs)
      \<and> list_all (known eng) (fr # frs) \<and> callers_ok fr frs \<and> stack_ok fr frs)"
| "run_ok eng other = True"

definition in_flight :: "Frame \<Rightarrow> Frame list \<Rightarrow> string list" where
  "in_flight fr frs = map (\<lambda>f. flow_id (fr_flow f)) (fr # frs)"

text \<open>
  Modelled from the spec: a flow invokes another when one of its nodes is a Subflow node
  that "references another FlowDefinition id in the same document" (section 3).
\<close>

definition invokes :: "FlowDocument \<Rightarrow> string \<Rightarrow> string \<Rightarrow> bool" where
  "invokes doc f g =
     (case find_flow doc f of
        None \<Rightarrow> False
      | Some flow \<Rightarrow> list_ex (\<lambda>node. node_kind node = SubflowNode g) (flow_nodes flow))"

text \<open>
  Modelled from the spec: a validated document. The validator belongs to the engine and
  is not among the sources. Section 4.1 asks that "the graph must be acyclic except
  through Loop and Subflow nodes": every cycle of edges within a flow passes through a
  Loop node, that is, some ranking of the node ids rises along every edge that does not
  leave a Loop node. A Merge node waits for its declared inputs, so these count as edges
  into it. A cycle through Subflow nodes is a cycle of invocations between flows, which
  the document may hold and the call stack bounds at run time.
\<close>

definition is_loop :: "FlowDefinition \<Rightarrow> string \<Rightarrow> bool" where
  "is_loop flow n =
     (case find_node flow n of
        None \<Rightarrow> False
      | Some node \<Rightarrow> kind_type (node_kind node) = TLoop)"

definition rises :: "(string \<Rightarrow> nat) \<Rightarrow> FlowDefinition \<Rightarrow> string \<Rightarrow> string \<Rightarrow> bool" where
  "rises rank flow slot target =
     list_all (\<lambda>n. is_loop flow n \<or> rank n < rank target) (slot_sources slot)"

definition ranked :: "(string \<Rightarrow> nat) \<Rightarrow> FlowDefinition \<Rightarrow> bool" where
  "ranked rank flow =
     (list_all (\<lambda>e. rises rank flow (edge_from e) (edge_to e)) (flow_edges flow)
      \<and> list_all (\<lambda>m. node_kind m = MergeNode \<longrightarrow>
                     list_all (\<lambda>i. rises rank flow (input_from i) (base_id (node_base m)))
                       (declared_inputs m))
          (flow_nodes flow))"

definition acyclic_flow :: "FlowDefinition \<Rightarrow> bool" where
  "acyclic_flow flow = (\<exists>rank. ranked rank flow)"

definition valid_document :: "FlowDocument \<Rightarrow> bool" where
  "valid_document doc = list_all acyclic_flow (doc_flows doc)"

text \<open>
  A run has ended when it has an outcome: a value with the transcript, or a failure. The
  transcript of a run is that of its innermost invocation, or the one it ended with.
\<close>

fun ended :: "Run \<Rightarrow> bool" where
  "ended (Running fr frs) = False"
| "ended (Finished v transcript) = True"
| "ended (Failed failure transcript) = True"

fun run_transcript :: "Run \<Rightarrow> Turn list" where
  "run_transcript (Running fr frs) = ctx_transcript (fr_ctx fr)"
| "run_transcript (Finished v transcript) = transcript"
| "run_transcript (Failed failure transcript) = transcript"

text \<open>
  The transcript of every invocation in flight begins with the transcript of its caller.
\<close>

definition begins_with :: "'a list \<Rightarrow> 'a list \<Rightarrow> bool" where
  "begins_with xs ys = (take (length ys) xs = ys)"

fun scripts_ok :: "Frame \<Rightarrow> Frame list \<Rightarrow> bool" where
  "scripts_ok fr [] = True"
| "scripts_ok fr (parent # outer) =
     (begins_with (ctx_transcript (fr_ctx fr)) (ctx_transcript (fr_ctx parent))
      \<and> scripts_ok parent outer)"

text \<open>
  The run is at an Output node of the flow that was started, no nested flow being in
  flight, with all of the node's inputs satisfied (section 4.1: "Reaching an Output node
  with all its inputs satisfied ends the run successfully"); \<open>v\<close> is the collection of
  the values on its incoming edges and \<open>transcript\<close> the transcript at that point.
\<close>

definition output_reached :: "Run \<Rightarrow> Value \<Rightarrow> Turn list \<Rightarrow> bool" where
  "output_reached run v transcript =
     (case run of
        Running fr frs \<Rightarrow>
          frs = [] \<and>
          (case fr_ready fr of
             [] \<Rightarrow> False
           | nodeId # rest \<Rightarrow>
               (case find_node (fr_flow fr) nodeId of
                  None \<Rightarrow> False
                | Some node \<Rightarrow>
                    node_kind node = OutputNode \<and> satisfied (fr_ctx fr) node
                    \<and> v = Collection (incoming_values (fr_flow fr) (fr_ctx fr) nodeId)
                    \<and> transcript = ctx_transcript (fr_ctx fr)))
      | Finished v' transcript' \<Rightarrow> False
      | Failed failure transcript' \<Rightarrow> False)"

text \<open>
  The work left in a frame, by which a run is shown to end. A ready node weighs a power
  of the number of edges and nodes that falls as the node's rank rises: firing a node
  other than a Loop node takes it off the ready set and makes ready at most one node per
  edge and per Merge node, each of a higher rank, so the sum over the ready set falls.
\<close>

definition weight :: "FlowDefinition \<Rightarrow> (string \<Rightarrow> nat) \<Rightarrow> string \<Rightarrow> nat" where
  "weight flow rank n =
     (length (flow_edges flow) + length (flow_nodes flow) + 2) ^
       (Suc (sum_list (map (\<lambda>e. rank (edge_to e)) (flow_edges flow))
             + sum_list (map (\<lambda>m. rank (base_id (node_base m))) (flow_nodes flow)))
        - rank n)"

definition potential :: "(string \<Rightarrow> nat) \<Rightarrow> Frame \<Rightarrow> nat" where
  "potential rank fr = sum_list (map (weight (fr_flow fr) rank) (fr_ready fr))"

text \<open>
  The iterations left in a frame. A Loop node has as many resolutions of its outgoing
  edges before it as its counter lacks to pass the maximum; the counters, in the order in
  which the loops were entered, are the digits of a number, with the places not yet taken
  at their highest. The number falls whenever a Loop node resolves edges: its own digit
  falls, and only digits after it are reset.
\<close>

definition budget :: "FlowDefinition \<Rightarrow> string \<Rightarrow> nat" where
  "budget flow n =
     (case find_node flow n of
        None \<Rightarrow> 0
      | Some node \<Rightarrow>
          (case node_kind node of
             LoopNode (Some limit) condition \<Rightarrow> Suc (nat \<lfloor>limit\<rfloor>)
           | other \<Rightarrow> 0))"

definition radix :: "FlowDefinition \<Rightarrow> nat" where
  "radix flow =
     Suc (Suc (sum_list (map (\<lambda>m. budget flow (base_id (node_base m))) (flow_nodes flow))))"

fun iterations_left :: "FlowDefinition \<Rightarrow> nat \<Rightarrow> (string \<times> nat) list \<Rightarrow> nat" where
  "iterations_left flow d [] = radix flow ^ d - 1"
| "iterations_left flow d ((n, c) # rest) =
     (budget flow n - c) * radix flow ^ (d - 1) + iterations_left flow (d - 1) rest"

definition loops_left :: "Frame \<Rightarrow> nat" where
  "loops_left fr =
     iterations_left (fr_flow fr) (length (flow_nodes (fr_flow fr)))
       (ctx_iterations (fr_ctx fr))"

text \<open>
  The counters of a frame belong to nodes of its flow, one counter for a node.
\<close>

definition loops_ok :: "Frame \<Rightarrow> bool" where
  "loops_ok fr =
     (distinct (map fst (ctx_iterations (fr_ctx fr)))
      \<and> list_all (\<lambda>n. find_node (fr_flow fr) n \<noteq> None) (map fst (ctx_iterations (fr_ctx fr))))"

text \<open>
  A frame completes when the run from it ends, or hands a value back to the frame that
  awaits it.
\<close>

definition completes :: "Engine \<Rightarrow> Frame \<Rightarrow> Frame list \<Rightarrow> bool" where
  "completes eng fr frs =
     (\<exists>n. ended (steps n eng (Running fr frs))
        \<or> (\<exists>p ps l v turns. frs = p # ps
              \<and> steps n eng (Running fr frs) = Running (emit eng p (fr_caller fr) l v turns) ps))"

section \<open>Sample values\<close>

text \<open>
  The flow that \<open>App\<close> installs when the document has none (\<open>fallback\<close> in the
  App component).
\<close>

definition fallback_flow :: FlowDefinition where
  "fallback_flow =
     \<lparr>flow_id = ''flow_1'', flow_entry = ''start'',
      flow_nodes = [createFlowNode [] TInput (Some ''start''),
                    createFlowNode [] TOutput (Some ''finish'')],
      flow_edges = [\<lparr>edge_from = ''start/out'', edge_to = ''finish'',
                     edge_condition = None, edge_label = None\<rparr>]\<rparr>"

text \<open>A connection dragged from node \<open>s\<close> (handle \<open>h\<close>) to node \<open>t\<close>.\<close>

definition drag_connection :: "string \<Rightarrow> string \<Rightarrow> string option \<Rightarrow> Connection" where
  "drag_connection s t h =
     \<lparr>conn_source = Some s, conn_target = Some t, conn_sourceHandle = h,
      conn_targetHandle = None\<rparr>"

text \<open>
  A flow whose decision node has an output labelled \<open>"yes/no"\<close>; the node editor's
  label field takes any text.
\<close>

definition route_flow :: FlowDefinition where
  "route_flow =
     \<lparr>flow_id = ''flow_1'', flow_entry = ''start'',
      flow_nodes = [createFlowNode [] TInput (Some ''start''),
                    (createFlowNode [] TDecision (Some ''route''))
                      \<lparr>node_base := (default_base [] TDecision (Some ''route''))
                         \<lparr>base_outputs := Some [\<lparr>output_label = ''yes/no'', output_condition = None\<rparr>]\<rparr>\<rparr>,
                    createFlowNode [] TOutput (Some ''finish'')],
      flow_edges = [\<lparr>edge_from = ''start/out'', edge_to = ''route'',
                     edge_condition = None, edge_label = None\<rparr>]\<rparr>"

text \<open>
  A flow with two agents whose ids are \<open>agent\<close> and \<open>agent2\<close> (the node editor's id
  field takes any text); the only edge of \<open>agent2\<close> leads to \<open>finish\<close>.
\<close>

definition twin_flow :: FlowDefinition where
  "twin_flow =
     \<lparr>flow_id = ''flow_1'', flow_entry = ''start'',
      flow_nodes = [createFlowNode [] TInput (Some ''start''),
                    createFlowNode [] TAgent (Some ''agent''),
                    createFlowNode [] TAgent (Some ''agent2''),
                    createFlowNode [] TOutput (Some ''finish'')],
      flow_edges = [\<lparr>edge_from = ''start/out'', edge_to = ''agent'',
                     edge_condition = None, edge_label = None\<rparr>,
                    \<lparr>edge_from = ''agent2/out'', edge_to = ''finish'',
                     edge_condition = None, edge_label = None\<rparr>]\<rparr>"

text \<open>A document object with a padded version and several empty parts.\<close>

definition sample_document :: "(string \<times> json) list" where
  "sample_document =
     [(''version'', JString '' 0.2 ''),
      (''metadata'', JObject [(''name'', JString ''  ''), (''tags'', JArray [])]),
      (''agents'', JArray []),
      (''flows'', JArray [JObject [(''id'', JString ''main''), (''entry'', JNull),
                                   (''nodes'', JArray [JObject []])]])]"

text \<open>
  Sample flows. \<open>with_inputs\<close> declares the input slots of a node and \<open>plain_edge\<close>
  is an edge with neither guard nor label.
\<close>

definition with_inputs :: "FlowNode \<Rightarrow> string list \<Rightarrow> FlowNode" where
  "with_inputs node slots =
     node\<lparr>node_base := (node_base node)\<lparr>base_inputs := Some (map (\<lambda>s. \<lparr>input_from = s\<rparr>) slots)\<rparr>\<rparr>"

definition plain_edge :: "string \<Rightarrow> string \<Rightarrow> FlowEdge" where
  "plain_edge s t = \<lparr>edge_from = s, edge_to = t, edge_condition = None, edge_label = None\<rparr>"

definition join_flow :: FlowDefinition where
  "join_flow =
     \<lparr>flow_id = ''J'', flow_entry = ''start'',
      flow_nodes =
        [createFlowNode [] TInput (Some ''start''),
         with_inputs (createFlowNode [] TAgent (Some ''a'')) [''start/out''],
         with_inputs (createFlowNode [] TAgent (Some ''b'')) [''start/out''],
         with_inputs (createFlowNode [] TMerge (Some ''m'')) [''a/out'', ''b/out''],
         with_inputs (createFlowNode [] TOutput (Some ''finish'')) [''m/out'']],
      flow_edges = [plain_edge ''start/out'' ''a'', plain_edge ''start/out'' ''b'',
                    plain_edge ''a/out'' ''m'', plain_edge ''b/out'' ''m'',
                    plain_edge ''m/out'' ''finish'']\<rparr>"

definition caller_flow :: FlowDefinition where
  "caller_flow =
     \<lparr>flow_id = ''P'', flow_entry = ''start'',
      flow_nodes =
        [createFlowNode [] TInput (Some ''start''),
         with_inputs ((createFlowNode [] TSubflow (Some ''s1''))\<lparr>node_kind := SubflowNode ''Q''\<rparr>)
           [''start/out''],
         with_inputs (createFlowNode [] TOutput (Some ''finish'')) [''s1/out'']],
      flow_edges = [plain_edge ''start/out'' ''s1'', plain_edge ''s1/out'' ''finish'']\<rparr>"

definition callee_flow :: FlowDefinition where
  "callee_flow =
     \<lparr>flow_id = ''Q'', flow_entry = ''start'',
      flow_nodes =
        [createFlowNode [] TInput (Some ''start''),
         with_inputs (createFlowNode [] TAgent (Some ''a'')) [''start/out''],
         with_inputs ((createFlowNode [] TSubflow (Some ''s2''))\<lparr>node_kind := SubflowNode ''P''\<rparr>)
           [''a/out''],
         with_inputs (createFlowNode [] TOutput (Some ''finish'')) [''s2/out'']],
      flow_edges = [plain_edge ''start/out'' ''a'', plain_edge ''a/out'' ''s2'',
                    plain_edge ''s2/out'' ''finish'']\<rparr>"

definition starved_flow :: FlowDefinition where
  "starved_flow = join_flow\<lparr>flow_edges :=
     [plain_edge ''start/out'' ''a'', plain_edge ''a/out'' ''m'', plain_edge ''b/out'' ''m'',
      plain_edge ''m/out'' ''finish'']\<rparr>"

text \<open>
  The sample engine echoes the task: every handler succeeds at the node's sole output,
  and the handler of an Agent node records one turn (its call of the model). No guard
  and no break condition holds.
\<close>

definition echo_handler :: Handler where
  "echo_handler node task ctx =
     Inr (sole_output node, Text task,
          (case node_kind node of
             AgentNode agent prompt tools parameters \<Rightarrow>
               [\<lparr>turn_node = base_id (node_base node), turn_text = task\<rparr>]
           | other \<Rightarrow> []))"

definition sample_engine :: "FlowDefinition list \<Rightarrow> Engine" where
  "sample_engine flows =
     \<lparr>eng_document = \<lparr>doc_version = ''0.1'', doc_metadata = None, doc_agents = [],
                        doc_tools = [], doc_prompts = [], doc_flows = flows\<rparr>,
      eng_task = ''hello'', eng_handler = echo_handler, eng_holds = (\<lambda>c ctx. False)\<rparr>"

text \<open>
  A flow with a loop: the Loop node \<open>l\<close> (three iterations at most, no break condition)
  has the agent \<open>b\<close> as its body, and leads on to \<open>finish\<close>.
\<close>

definition loop_flow :: FlowDefinition where
  "loop_flow =
     \<lparr>flow_id = ''L'', flow_entry = ''start'',
      flow_nodes =
        [createFlowNode [] TInput (Some ''start''),
         with_inputs (createFlowNode [] TLoop (Some ''l'')) [''start/out''],
         with_inputs (createFlowNode [] TAgent (Some ''b'')) [''l/out''],
         with_inputs (createFlowNode [] TOutput (Some ''finish'')) [''l/out'']],
      flow_edges = [plain_edge ''start/out'' ''l'', plain_edge ''l/out'' ''b'',
                    plain_edge ''b/out'' ''l'', plain_edge ''l/out'' ''finish'']\<rparr>"

text \<open>
  A flow that invokes the flow with the loop and hands its value on, and rankings of the
  nodes of both flows that rise along every edge that does not leave a Loop node.
\<close>

definition outer_flow :: FlowDefinition where
  "outer_flow =
     \<lparr>flow_id = ''O'', flow_entry = ''start'',
      flow_nodes =
        [createFlowNode [] TInput (Some ''start''),
         with_inputs ((createFlowNode [] TSubflow (Some ''s''))\<lparr>node_kind := SubflowNode ''L''\<rparr>)
           [''start/out''],
         with_inputs (createFlowNode [] TOutput (Some ''finish'')) [''s/out'']],
      flow_edges = [plain_edge ''start/out'' ''s'', plain_edge ''s/out'' ''finish'']\<rparr>"

definition outer_rank :: "string \<Rightarrow> nat" where
  "outer_rank n = (if n = ''start'' then 0 else if n = ''s'' then 1 else 2)"

definition loop_rank :: "string \<Rightarrow> nat" where
  "loop_rank n = (if n = ''start'' \<or> n = ''b'' then 0 else 1)"

text \<open>
  The join flow without the edge from \<open>b\<close> to the Merge node: both agents run, and no
  edge into the Merge node is resolved after its last input is produced.
\<close>

definition unwired_flow :: FlowDefinition where
  "unwired_flow = join_flow\<lparr>flow_edges :=
     [plain_edge ''start/out'' ''a'', plain_edge ''start/out'' ''b'', plain_edge ''a/out'' ''m'',
      plain_edge ''m/out'' ''finish'']\<rparr>"

text \<open>
  States of the sample runs: the run of \<open>P\<close> when \<open>Q\<close>, invoked by \<open>P\<close>, is about to
  invoke \<open>P\<close>; and the run of the join flow when the Merge node is about to fire.
\<close>

definition caller_frame :: Frame where
  "caller_frame =
     \<lparr>fr_flow = caller_flow,
      fr_ctx = \<lparr>ctx_transcript = [], ctx_bindings = [(''start/out'', Text ''hello'')],
                ctx_stack = [''P''], ctx_iterations = []\<rparr>,
      fr_ready = [], fr_events = [''start''], fr_caller = []\<rparr>"

definition callee_frame :: Frame where
  "callee_frame =
     \<lparr>fr_flow = callee_flow,
      fr_ctx = \<lparr>ctx_transcript = [\<lparr>turn_node = ''a'', turn_text = ''hello''\<rparr>],
                ctx_bindings = [(''a/out'', Text ''hello''), (''start/out'', Text ''hello'')],
                ctx_stack = [''Q'', ''P''], ctx_iterations = []\<rparr>,
      fr_ready = [''s2''], fr_events = [''start'', ''a''], fr_caller = ''s1''\<rparr>"

definition join_frame :: Frame where
  "join_frame =
     \<lparr>fr_flow = join_flow,
      fr_ctx = \<lparr>ctx_transcript = [\<lparr>turn_node = ''a'', turn_text = ''hello''\<rparr>,
                                   \<lparr>turn_node = ''b'', turn_text = ''hello''\<rparr>],
                ctx_bindings = [(''b/out'', Text ''hello''), (''a/out'', Text ''hello''),
                                (''start/out'', Text ''hello'')],
                ctx_stack = [''J''], ctx_iterations = []\<rparr>,
      fr_ready = [''m''], fr_events = [''start'', ''a'', ''b''], fr_caller = []\<rparr>"

section \<open>Properties of node construction\<close>

lemma createFlowNode_kind: "kind_type (node_kind (createFlowNode rnd ty ident)) = ty"
  by (cases ty) simp_all

lemma createFlowNode_id:
  "base_id (node_base (createFlowNode rnd ty (Some i))) = i"
  by (cases ty) (simp_all add: default_base_def)

text \<open>
  Claim C3. Whatever kind is asked for, \<open>createFlowNode\<close> returns a node of that kind;
  the node made for kind "input" declares zero inputs and exactly one output, and the
  node made for kind "output" declares at least one input and zero outputs.
\<close>

theorem createFlowNode_terminal_arity:
  "kind_type (node_kind (createFlowNode rnd ty ident)) = ty
   \<and> length (declared_inputs (createFlowNode rnd TInput ident)) = 0
   \<and> length (declared_outputs (createFlowNode rnd TInput ident)) = 1
   \<and> 1 \<le> length (declared_inputs (createFlowNode rnd TOutput ident))
   \<and> length (declared_outputs (createFlowNode rnd TOutput ident)) = 0"
  by (simp add: createFlowNode_kind declared_inputs_def declared_outputs_def default_base_def)

text \<open>
  Claim C5. \<open>FlowNode\<close> is a closed tagged variant: the tags that nodes carry are exactly
  the nine literals, every node carries one of them, and the tag determines which of the
  nine kind types the node's kind belongs to.
\<close>

theorem FlowNode_tags_closed:
  "range node_tag =
     {''input'', ''output'', ''agent'', ''decision'', ''tool'', ''merge'', ''parallel'',
      ''loop'', ''subflow''}
   \<and> inj type_literal
   \<and> (UNIV :: FlowNodeKindType set) =
     {TInput, TOutput, TAgent, TDecision, TTool, TMerge, TParallel, TLoop, TSubflow}"
proof (intro conjI)
  show "inj type_literal"
  proof (rule injI)
    fix a b assume "type_literal a = type_literal b"
    then show "a = b" by (cases a; cases b) simp_all
  qed
  show all: "(UNIV :: FlowNodeKindType set) =
     {TInput, TOutput, TAgent, TDecision, TTool, TMerge, TParallel, TLoop, TSubflow}"
  proof -
    have "t \<in> {TInput, TOutput, TAgent, TDecision, TTool, TMerge, TParallel, TLoop, TSubflow}"
      for t by (cases t) simp_all
    then show ?thesis by blast
  qed
  have onto: "range (\<lambda>n::FlowNode. kind_type (node_kind n)) = UNIV"
  proof -
    have "\<exists>n::FlowNode. kind_type (node_kind n) = t" for t
      using createFlowNode_kind [of "''''" t None] by blast
    then show ?thesis by (auto simp: image_iff) metis
  qed
  have "range node_tag = type_literal ` range (\<lambda>n::FlowNode. kind_type (node_kind n))"
    by (auto simp: node_tag_def image_iff)
  also have "\<dots> = type_literal ` UNIV" by (simp only: onto)
  also have "\<dots> = {''input'', ''output'', ''agent'', ''decision'', ''tool'', ''merge'',
      ''parallel'', ''loop'', ''subflow''}"
    by (subst all) simp
  finally show "range node_tag =
     {''input'', ''output'', ''agent'', ''decision'', ''tool'', ''merge'', ''parallel'',
      ''loop'', ''subflow''}" .
qed

section \<open>Properties of the canvas\<close>

lemma split_on_nonempty: "split_on sep s \<noteq> []"
  by (induction s) (auto split: list.splits)

lemma split_on_no_sep: "sep \<notin> set s \<Longrightarrow> split_on sep s = [s]"
  by (induction s) auto

lemma split_on_first: "sep \<notin> set a \<Longrightarrow> split_on sep (a @ sep # b) = a # split_on sep b"
  by (induction a) auto

lemma split_on_head_eq: "at_index (split_on sep s) 0 = Some s \<longleftrightarrow> sep \<notin> set s"
proof
  assume "at_index (split_on sep s) 0 = Some s"
  then show "sep \<notin> set s"
  proof (induction s)
    case Nil then show ?case by simp
  next
    case (Cons c cs)
    then show ?case
      by (auto simp: at_index_def split: if_splits list.splits)
  qed
next
  assume "sep \<notin> set s" then show "at_index (split_on sep s) 0 = Some s"
    by (simp add: split_on_no_sep at_index_def)
qed

lemma mapEdges_snoc: "mapEdges (es @ [e]) = mapEdges es @ [mapEdge (length es) e]"
  by (simp add: mapEdges_def enumerate_append_eq)

lemma getDefaultOutput_rule:
  "getDefaultOutput nodes s =
     (case source_outputs nodes s of [] \<Rightarrow> ''out'' | out # rest \<Rightarrow> output_label out)"
  by (auto simp: getDefaultOutput_def source_outputs_def declared_outputs_def
           split: option.splits list.splits)

lemma default_declared: "label_declared nodes s (getDefaultOutput nodes s)"
  by (auto simp: getDefaultOutput_rule label_declared_def split: list.splits)

lemma handleConnect_Some:
  assumes "handleConnect flow c = Some flow'"
      and "conn_source c = Some s" and "conn_target c = Some t"
  shows "s \<noteq> [] \<and> t \<noteq> [] \<and>
     flow' = flow\<lparr>flow_edges := flow_edges flow @
        [\<lparr>edge_from = s @ ''/'' @ edge_label_rule (flow_nodes flow) c s, edge_to = t,
          edge_condition = None, edge_label = None\<rparr>]\<rparr>"
  using assms
  by (auto simp: handleConnect_def edge_label_rule_def getDefaultOutput_rule Let_def
           split: option.splits if_splits)

text \<open>
  Claim C2, as amended. A connection that \<open>handleConnect\<close> accepts has a non-empty source
  and target, and the edge added has \<open>from = source/label\<close>, the label being the
  connection's \<open>sourceHandle\<close> if present, otherwise the source node's first declared
  output label, otherwise \<open>"out"\<close>. That label is a declared output of the source node
  (or the implicit \<open>"out"\<close> of a node that declares none) exactly when the connection
  has no \<open>sourceHandle\<close> or its \<open>sourceHandle\<close> is itself one: a handle that is
  present is used unchecked.
\<close>

theorem handleConnect_edge_label:
  assumes "handleConnect flow c = Some flow'"
      and "conn_source c = Some s" and "conn_target c = Some t"
  shows "s \<noteq> [] \<and> t \<noteq> [] \<and>
     flow' = flow\<lparr>flow_edges := flow_edges flow @
        [\<lparr>edge_from = s @ ''/'' @ edge_label_rule (flow_nodes flow) c s, edge_to = t,
          edge_condition = None, edge_label = None\<rparr>]\<rparr> \<and>
     (label_declared (flow_nodes flow) s (edge_label_rule (flow_nodes flow) c s) \<longleftrightarrow>
        (case conn_sourceHandle c of
           None \<Rightarrow> True
         | Some handle \<Rightarrow> label_declared (flow_nodes flow) s handle))"
proof -
  have "label_declared (flow_nodes flow) s (edge_label_rule (flow_nodes flow) c s)"
    if "conn_sourceHandle c = None"
    using that default_declared [of "flow_nodes flow" s]
    by (simp add: edge_label_rule_def getDefaultOutput_rule)
  moreover have "edge_label_rule (flow_nodes flow) c s = h" if "conn_sourceHandle c = Some h" for h
    using that by (simp add: edge_label_rule_def)
  ultimately show ?thesis
    using handleConnect_Some [OF assms] by (auto split: option.splits)
qed

theorem handleConnect_edge_label_witness:
  "handleConnect fallback_flow (drag_connection ''start'' ''finish'' None) =
     Some (fallback_flow\<lparr>flow_edges := flow_edges fallback_flow @
        [\<lparr>edge_from = ''start/out'', edge_to = ''finish'',
          edge_condition = None, edge_label = None\<rparr>]\<rparr>)
   \<and> label_declared (flow_nodes fallback_flow) ''start'' ''out''"
proof -
  let ?c = "drag_connection ''start'' ''finish'' None"
  have r: "edge_label_rule (flow_nodes fallback_flow) ?c ''start'' = ''out''"
    by (simp add: edge_label_rule_def drag_connection_def source_outputs_def fallback_flow_def
        declared_outputs_def default_base_def out_slot_def)
  obtain f where h: "handleConnect fallback_flow ?c = Some f"
    by (simp add: handleConnect_def drag_connection_def)
  from handleConnect_edge_label [OF h, of "''start''" "''finish''"] r h
  show ?thesis by (simp add: drag_connection_def)
qed

text \<open>
  The claim as stated fails for a connection whose \<open>sourceHandle\<close> is not a declared
  output: the input node \<open>start\<close> declares the one output \<open>out\<close>, and the edge made
  for the handle \<open>zzz\<close> is \<open>start/zzz\<close>.
\<close>

theorem handleConnect_undeclared_handle:
  "handleConnect fallback_flow (drag_connection ''start'' ''finish'' (Some ''zzz'')) =
     Some (fallback_flow\<lparr>flow_edges := flow_edges fallback_flow @
        [\<lparr>edge_from = ''start/zzz'', edge_to = ''finish'',
          edge_condition = None, edge_label = None\<rparr>]\<rparr>)
   \<and> map output_label (source_outputs (flow_nodes fallback_flow) ''start'') = [''out'']
   \<and> \<not> label_declared (flow_nodes fallback_flow) ''start'' ''zzz''"
  by (simp add: handleConnect_def drag_connection_def getDefaultOutput_def fallback_flow_def
      label_declared_def source_outputs_def declared_outputs_def default_base_def out_slot_def)

text \<open>
  Claim C4, as amended. For a connection that \<open>handleConnect\<close> accepts and whose source
  id holds no \<open>"/"\<close>, \<open>mapEdges\<close> gives the new edge that id as its source, and as
  its \<open>sourceHandle\<close> the part of the label before the label's first \<open>"/"\<close>: the
  label itself exactly when the label holds no \<open>"/"\<close> either.
\<close>

theorem mapEdges_recovers_connection:
  assumes "handleConnect flow c = Some flow'"
      and "conn_source c = Some s" and "conn_target c = Some t"
      and "CHR ''/'' \<notin> set s"
  shows "rf_source (last (mapEdges (flow_edges flow'))) = Some s
     \<and> rf_sourceHandle (last (mapEdges (flow_edges flow'))) =
         at_index (split_on CHR ''/'' (edge_label_rule (flow_nodes flow) c s)) 0
     \<and> (rf_sourceHandle (last (mapEdges (flow_edges flow'))) =
           Some (edge_label_rule (flow_nodes flow) c s)
         \<longleftrightarrow> CHR ''/'' \<notin> set (edge_label_rule (flow_nodes flow) c s))"
proof -
  let ?l = "edge_label_rule (flow_nodes flow) c s"
  let ?e = "\<lparr>edge_from = s @ ''/'' @ ?l, edge_to = t,
            edge_condition = None, edge_label = None\<rparr>"
  have "flow_edges flow' = flow_edges flow @ [?e]"
    using handleConnect_Some [OF assms(1-3)] by simp
  then have last: "last (mapEdges (flow_edges flow')) = mapEdge (length (flow_edges flow)) ?e"
    by (simp add: mapEdges_snoc)
  have parts: "split_on CHR ''/'' (s @ CHR ''/'' # ?l) = s # split_on CHR ''/'' ?l"
    by (rule split_on_first [OF assms(4)])
  have src: "rf_source (mapEdge (length (flow_edges flow)) ?e) = Some s"
    by (simp add: mapEdge_def Let_def parts at_index_def)
  have hdl: "rf_sourceHandle (mapEdge (length (flow_edges flow)) ?e) =
         at_index (split_on CHR ''/'' ?l) 0"
    using split_on_nonempty [of "CHR ''/''" ?l]
    by (cases "split_on CHR ''/'' ?l") (simp_all add: mapEdge_def Let_def parts at_index_def)
  show ?thesis
    unfolding last using src hdl split_on_head_eq [of "CHR ''/''" ?l] by simp
qed

theorem mapEdges_recovers_connection_witness:
  "handleConnect fallback_flow (drag_connection ''start'' ''finish'' None) =
     Some (fallback_flow\<lparr>flow_edges := flow_edges fallback_flow @
        [\<lparr>edge_from = ''start/out'', edge_to = ''finish'',
          edge_condition = None, edge_label = None\<rparr>]\<rparr>)
   \<and> CHR ''/'' \<notin> set ''start''
   \<and> rf_source (last (mapEdges (flow_edges fallback_flow @
        [\<lparr>edge_from = ''start/out'', edge_to = ''finish'',
          edge_condition = None, edge_label = None\<rparr>]))) = Some ''start''
   \<and> rf_sourceHandle (last (mapEdges (flow_edges fallback_flow @
        [\<lparr>edge_from = ''start/out'', edge_to = ''finish'',
          edge_condition = None, edge_label = None\<rparr>]))) = Some ''out''"
proof -
  let ?c = "drag_connection ''start'' ''finish'' None"
  let ?f = "fallback_flow\<lparr>flow_edges := flow_edges fallback_flow @
        [\<lparr>edge_from = ''start/out'', edge_to = ''finish'',
          edge_condition = None, edge_label = None\<rparr>]\<rparr>"
  have r: "edge_label_rule (flow_nodes fallback_flow) ?c ''start'' = ''out''"
    by (simp add: edge_label_rule_def drag_connection_def source_outputs_def fallback_flow_def
        declared_outputs_def default_base_def out_slot_def)
  have h: "handleConnect fallback_flow ?c = Some ?f"
    by (simp add: handleConnect_def drag_connection_def getDefaultOutput_def fallback_flow_def
        default_base_def out_slot_def)
  have c: "conn_source ?c = Some ''start''" "conn_target ?c = Some ''finish''"
    by (simp_all add: drag_connection_def)
  have n: "CHR ''/'' \<notin> set ''start''" by simp
  from mapEdges_recovers_connection [OF h c n] r h
  show ?thesis by (simp add: at_index_def)
qed

text \<open>
  The round trip as stated fails for a label that holds a \<open>"/"\<close>: the edge
  \<open>route/yes/no\<close> comes back with the handle \<open>yes\<close>.
\<close>

theorem mapEdges_label_with_slash:
  "handleConnect route_flow (drag_connection ''route'' ''finish'' (Some ''yes/no'')) =
     Some (route_flow\<lparr>flow_edges := flow_edges route_flow @
        [\<lparr>edge_from = ''route/yes/no'', edge_to = ''finish'',
          edge_condition = None, edge_label = None\<rparr>]\<rparr>)
   \<and> CHR ''/'' \<notin> set ''route''
   \<and> rf_source (last (mapEdges (flow_edges route_flow @
        [\<lparr>edge_from = ''route/yes/no'', edge_to = ''finish'',
          edge_condition = None, edge_label = None\<rparr>]))) = Some ''route''
   \<and> rf_sourceHandle (last (mapEdges (flow_edges route_flow @
        [\<lparr>edge_from = ''route/yes/no'', edge_to = ''finish'',
          edge_condition = None, edge_label = None\<rparr>]))) = Some ''yes''
   \<and> ''yes'' \<noteq> ''yes/no''"
  by (simp add: handleConnect_def drag_connection_def route_flow_def mapEdges_def mapEdge_def
      at_index_def)

section \<open>Properties of node removal\<close>

lemma startsWith_append: "startsWith (p @ s) p"
  by (induction p) auto

lemma startsWith_iff: "startsWith s p \<longleftrightarrow> take (length p) s = p"
  by (induction s p rule: startsWith.induct) auto

lemma split_on_head_prefix: "split_on sep s = p # ps \<Longrightarrow> startsWith s p"
  by (induction s arbitrary: p ps) (auto split: if_splits list.splits)

lemma edge_source_startsWith: "edge_source e = Some x \<Longrightarrow> startsWith (edge_from e) x"
  using split_on_head_prefix [of "CHR ''/''" "edge_from e"]
  by (cases "split_on CHR ''/'' (edge_from e)") (auto simp: edge_source_def at_index_def)

lemma edge_target_startsWith: "edge_target e = Some x \<Longrightarrow> startsWith (edge_to e) x"
  using split_on_head_prefix [of "CHR ''/''" "edge_to e"]
  by (cases "split_on CHR ''/'' (edge_to e)") (auto simp: edge_target_def at_index_def)

lemma removeNode_nodes:
  "removeNode (Some flow) x = Some (flow', sel) \<Longrightarrow>
     flow_nodes flow' = filter (\<lambda>n. base_id (node_base n) \<noteq> x) (flow_nodes flow)"
  by (auto simp: removeNode_def Let_def)

lemma removeNode_drops_incident:
  assumes "removeNode (Some flow) x = Some (flow', sel)" and "e \<in> set (flow_edges flow')"
  shows "e \<in> set (flow_edges flow) \<and> edge_source e \<noteq> Some x \<and> edge_target e \<noteq> Some x"
  using assms edge_source_startsWith [of e x] edge_target_startsWith [of e x]
  by (auto simp: removeNode_def Let_def)

text \<open>
  What \<open>removeNode\<close> does do: with an active flow it always yields a new flow, whose nodes
  are the nodes with another id, whose edges are the edges that pass the two prefix
  tests, and in which no edge starts from or leads to the removed node; id and entry are
  unchanged, and the first remaining node is selected.
\<close>

theorem removeNode_removes_node_and_its_edges:
  "(case removeNode (Some flow) x of
      None \<Rightarrow> False
    | Some (flow', selected) \<Rightarrow>
        flow_nodes flow' = filter (\<lambda>n. base_id (node_base n) \<noteq> x) (flow_nodes flow)
        \<and> flow_edges flow' =
            filter (\<lambda>e. \<not> startsWith (edge_from e) x \<and> \<not> startsWith (edge_to e) x)
              (flow_edges flow)
        \<and> list_all (\<lambda>e. edge_source e \<noteq> Some x \<and> edge_target e \<noteq> Some x) (flow_edges flow')
        \<and> flow_id flow' = flow_id flow \<and> flow_entry flow' = flow_entry flow
        \<and> selected = (case flow_nodes flow' of [] \<Rightarrow> None
                        | n # rest \<Rightarrow> Some (base_id (node_base n))))"
proof -
  obtain flow' selected where r: "removeNode (Some flow) x = Some (flow', selected)"
    by (simp add: removeNode_def Let_def)
  have "edge_source e \<noteq> Some x \<and> edge_target e \<noteq> Some x" if "e \<in> set (flow_edges flow')" for e
    using removeNode_drops_incident [OF r that] by simp
  then have "list_all (\<lambda>e. edge_source e \<noteq> Some x \<and> edge_target e \<noteq> Some x) (flow_edges flow')"
    by (simp add: list_all_iff)
  then show ?thesis using r by (auto simp: removeNode_def Let_def)
qed

text \<open>
  Claim C8. The claim asks that \<open>removeNode\<close> drop exactly the edges whose source or
  target node is the removed one. The code tests \<open>from\<close> and \<open>to\<close> with
  \<open>startsWith\<close>, so it also drops the edges of every node whose id merely begins with
  the removed id: removing \<open>agent\<close> deletes the edge from \<open>agent2\<close> to \<open>finish\<close>,
  an edge between two other nodes.
\<close>

theorem removeNode_prefix_sibling:
  "removeNode (Some twin_flow) ''agent'' =
     Some (twin_flow\<lparr>flow_nodes := [createFlowNode [] TInput (Some ''start''),
                                    createFlowNode [] TAgent (Some ''agent2''),
                                    createFlowNode [] TOutput (Some ''finish'')],
                     flow_edges := []\<rparr>, Some ''start'')
   \<and> flow_edges twin_flow ! 1 = \<lparr>edge_from = ''agent2/out'', edge_to = ''finish'',
                     edge_condition = None, edge_label = None\<rparr>
   \<and> edge_source (flow_edges twin_flow ! 1) = Some ''agent2''
   \<and> edge_target (flow_edges twin_flow ! 1) = Some ''finish''"
  by (simp add: removeNode_def twin_flow_def default_base_def edge_source_def edge_target_def
      at_index_def)

section \<open>Properties of the execution request\<close>

lemma map_of_obj_set: "map_of (obj_set al k v) = (map_of al)(k \<mapsto> v)"
  by (induction al) auto

lemma keys_obj_set: "set (map fst (obj_set al k v)) = insert k (set (map fst al))"
proof (induction al)
  case Nil
  then show ?case by simp
next
  case (Cons a al)
  obtain k' v' where a: "a = (k', v')" by (cases a)
  show ?case
  proof (cases "k' = k")
    case True
    then show ?thesis using a by simp
  next
    case False
    have "set (map fst (obj_set (a # al) k v)) = insert k' (set (map fst (obj_set al k v)))"
      using a False by simp
    also have "\<dots> = insert k' (insert k (set (map fst al)))"
      by (simp only: Cons.IH)
    finally show ?thesis using a by auto
  qed
qed

lemma distinct_obj_set: "distinct (map fst al) \<Longrightarrow> distinct (map fst (obj_set al k v))"
proof (induction al)
  case Nil
  then show ?case by simp
next
  case (Cons a al)
  obtain k' v' where a: "a = (k', v')" by (cases a)
  show ?case
  proof (cases "k' = k")
    case True
    then show ?thesis using Cons.prems a by simp
  next
    case False
    have "k' \<notin> set (map fst (obj_set al k v))"
      using Cons.prems a False by (simp only: keys_obj_set) simp
    then show ?thesis using Cons a False by simp
  qed
qed

lemma distinct_spread: "distinct (map fst t) \<Longrightarrow> distinct (map fst (spread t s))"
  unfolding spread_def by (induction s arbitrary: t) (auto simp: distinct_obj_set)

lemma map_of_spread:
  "distinct (map fst s) \<Longrightarrow> map_of (spread t s) = map_of t ++ map_of s"
  unfolding spread_def
proof (induction s arbitrary: t)
  case Nil
  then show ?case by simp
next
  case (Cons a s)
  obtain k v where a: "a = (k, v)" by (cases a)
  have none: "map_of s k = None"
    using Cons.prems a by (simp add: map_of_eq_None_iff)
  have "map_of (foldl (\<lambda>acc (k, v). obj_set acc k v) t (a # s)) =
        (map_of t)(k \<mapsto> v) ++ map_of s"
    using Cons a by (simp add: map_of_obj_set)
  also have "\<dots> = map_of t ++ map_of (a # s)"
  proof (rule ext)
    fix x show "((map_of t)(k \<mapsto> v) ++ map_of s) x = (map_of t ++ map_of (a # s)) x"
      using none a by (cases "map_of s x") (auto simp: map_add_def)
  qed
  finally show ?case .
qed

lemma distinct_base_fields: "distinct (map fst (base_fields b))"
  by (simp add: base_fields_def opt_field_def split: option.splits)

lemma distinct_kind_fields: "distinct (map fst (kind_fields k))"
  by (cases k) (simp_all add: opt_field_def split: option.splits)

lemma base_keys: "set (map fst (base_fields b)) \<subseteq>
    {''id'', ''name'', ''description'', ''inputs'', ''outputs'', ''layout''}"
  by (auto simp: base_fields_def opt_field_def split: option.splits)

lemma kind_keys: "set (map fst (kind_fields k)) \<subseteq>
    {''type'', ''agent'', ''prompt'', ''tools'', ''parameters'', ''strategy'', ''tool'',
     ''converge'', ''max_iterations'', ''condition'', ''flow''}"
  by (cases k) (auto simp: opt_field_def split: option.splits)

lemma base_kind_disjoint:
  "fst ` set (base_fields b) \<inter> fst ` set (kind_fields k) = {}"
proof -
  have "{''id'', ''name'', ''description'', ''inputs'', ''outputs'', ''layout''} \<inter>
    {''type'', ''agent'', ''prompt'', ''tools'', ''parameters'', ''strategy'', ''tool'',
     ''converge'', ''max_iterations'', ''condition'', ''flow''} = ({} :: string set)"
    by simp
  moreover have "fst ` set (base_fields b) \<inter> fst ` set (kind_fields k) \<subseteq>
    {''id'', ''name'', ''description'', ''inputs'', ''outputs'', ''layout''} \<inter>
    {''type'', ''agent'', ''prompt'', ''tools'', ''parameters'', ''strategy'', ''tool'',
     ''converge'', ''max_iterations'', ''condition'', ''flow''}"
    using base_keys [of b] kind_keys [of k] by (simp only: set_map) blast
  ultimately show ?thesis by (simp only: subset_empty)
qed

lemma id_not_kind_key: "map_of (kind_fields k) ''id'' = None"
  using kind_keys [of k] by (auto simp: map_of_eq_None_iff)

lemma base_id_field: "map_of (base_fields b) ''id'' = Some (FString (base_id b))"
  by (simp add: base_fields_def)

lemma map_of_flatten_node:
  "map_of (flatten_node n) =
     map_of (base_fields (node_base n)) ++ map_of (kind_fields (node_kind n))"
proof -
  have "map_of (spread [] (base_fields (node_base n))) = map_of (base_fields (node_base n))"
    using map_of_spread [OF distinct_base_fields, of "[]" "node_base n"] by simp
  then show ?thesis
    unfolding flatten_node_def
    using map_of_spread [OF distinct_kind_fields] by simp
qed

lemma flatten_node_flattened: "node_flattened n (flatten_node n)"
proof -
  have "distinct (map fst (flatten_node n))"
    unfolding flatten_node_def by (intro distinct_spread) simp
  moreover have "map_of (flatten_node n) ''id'' = Some (FString (base_id (node_base n)))"
    by (simp add: map_of_flatten_node map_add_def id_not_kind_key base_id_field)
  ultimately show ?thesis
    unfolding node_flattened_def using map_of_flatten_node base_kind_disjoint by blast
qed

text \<open>
  Claim C9. The request built by \<open>executeFlow\<close> carries the document's version,
  metadata, agents, tools and prompts unchanged, and flow by flow the id, the entry and the
  edges; the nodes of each flow are replaced one for one by their flattened objects, each
  the union of the node's base fields and kind fields with the node's id under \<open>id\<close>.
\<close>

theorem executeFlow_payload_preserves:
  "bd_version (req_flow (executeFlow doc input context)) = doc_version doc
   \<and> bd_metadata (req_flow (executeFlow doc input context)) = doc_metadata doc
   \<and> bd_agents (req_flow (executeFlow doc input context)) = doc_agents doc
   \<and> bd_tools (req_flow (executeFlow doc input context)) = doc_tools doc
   \<and> bd_prompts (req_flow (executeFlow doc input context)) = doc_prompts doc
   \<and> req_input (executeFlow doc input context) = input
   \<and> req_context (executeFlow doc input context) = context
   \<and> list_all2 flow_carried (doc_flows doc) (bd_flows (req_flow (executeFlow doc input context)))"
proof -
  have "flow_carried f \<lparr>bf_id = flow_id f, bf_entry = flow_entry f,
          bf_nodes = map flatten_node (flow_nodes f), bf_edges = flow_edges f\<rparr>" for f
    by (simp add: flow_carried_def list_all2_conv_all_nth flatten_node_flattened)
  then show ?thesis
    by (simp add: executeFlow_def backendFlow_def list_all2_conv_all_nth)
qed

section \<open>Properties of cleaning\<close>

lemma obj_set_fresh: "k \<notin> set (map fst al) \<Longrightarrow> obj_set al k v = al @ [(k, v)]"
  by (induction al) auto

lemma obj_set_same: "map_of al k = Some v \<Longrightarrow> obj_set al k v = al"
  by (induction al) (auto split: if_splits)

lemma rebuild_distinct:
  "distinct (map fst xs) \<Longrightarrow> set (map fst acc) \<inter> set (map fst xs) = {} \<Longrightarrow>
   foldl (\<lambda>acc (key, val). obj_set acc key val) acc xs = acc @ xs"
proof (induction xs arbitrary: acc)
  case Nil
  then show ?case by simp
next
  case (Cons a xs)
  obtain k v where a: "a = (k, v)" by (cases a)
  have fresh: "k \<notin> set (map fst acc)" using Cons.prems(2) a by auto
  have "set (map fst (acc @ [(k, v)])) \<inter> set (map fst xs) = {}"
    using Cons.prems a by auto
  then have "foldl (\<lambda>acc (key, val). obj_set acc key val) (acc @ [(k, v)]) xs
               = (acc @ [(k, v)]) @ xs"
    using Cons.IH [of "acc @ [(k, v)]"] Cons.prems(1) by simp
  then show ?case using a fresh by (simp add: obj_set_fresh)
qed

lemma spread_empty_distinct: "distinct (map fst xs) \<Longrightarrow> spread [] xs = xs"
  unfolding spread_def using rebuild_distinct [of xs "[]"] by simp

lemma rebuild_entries:
  "set (foldl (\<lambda>acc (key, val). obj_set acc key val) acc xs) \<subseteq> set acc \<union> set xs"
proof (induction xs arbitrary: acc)
  case Nil
  then show ?case by simp
next
  case (Cons a xs)
  obtain k v where a: "a = (k, v)" by (cases a)
  have "set (obj_set acc k v) \<subseteq> insert (k, v) (set acc)" for acc :: "('a \<times> 'b) list"
    by (induction acc) (auto split: if_splits)
  then show ?case using Cons.IH [of "obj_set acc k v"] a by auto
qed

lemma last_dropWhile: "dropWhile P xs \<noteq> [] \<Longrightarrow> last (dropWhile P xs) = last xs"
  by (induction xs) (auto split: if_splits)

lemma trim_idem: "trim (trim s) = trim s"
proof -
  define a where "a = dropWhile is_space s"
  define b where "b = dropWhile is_space (rev a)"
  have t: "trim s = rev b" by (simp add: trim_def a_def b_def)
  have "trim (rev b) = rev b"
  proof (cases "b = []")
    case True
    then show ?thesis by (simp add: trim_def)
  next
    case False
    then have hb: "\<not> is_space (hd b)" unfolding b_def by (rule hd_dropWhile)
    have "rev a \<noteq> []" using False b_def by auto
    then have an: "a \<noteq> []" by simp
    then have ha: "\<not> is_space (hd a)" unfolding a_def by (rule hd_dropWhile)
    have "last b = last (rev a)" using False unfolding b_def by (rule last_dropWhile)
    then have lb: "\<not> is_space (last b)" using ha an by (simp add: last_rev)
    have "dropWhile is_space (rev b) = rev b"
      using lb False by (simp add: dropWhile_eq_self_iff hd_rev)
    moreover have "dropWhile is_space b = b"
      using hb by (simp add: dropWhile_eq_self_iff)
    ultimately show ?thesis by (simp add: trim_def)
  qed
  then show ?thesis by (simp only: t)
qed

lemma trim_default: "trim ''0.1'' = ''0.1''"
  by (simp add: trim_def is_space_def)


lemma assign_fold:
  "foldl (\<lambda>acc (key, val). assign acc key val) acc xs
     = foldl (\<lambda>acc (key, val). obj_set acc key val) acc
         (filter (\<lambda>(key, val). key \<noteq> ''__proto__'') xs)"
  by (induction xs arbitrary: acc) (auto simp: assign_def)

lemma deepClean_twice: "deepClean (deepClean v) = deepClean v"
proof (induction v rule: deepClean.induct)
  case (1 xs)
  define cleaned where "cleaned = filter (\<lambda>item. \<not> shouldDrop item) (map deepClean xs)"
  have fixed: "deepClean y = y \<and> \<not> shouldDrop y" if "y \<in> set cleaned" for y
  proof -
    from that obtain x where "x \<in> set xs" "y = deepClean x" "\<not> shouldDrop y"
      unfolding cleaned_def by auto
    then show ?thesis using 1 [of x] by simp
  qed
  have "map deepClean cleaned = cleaned"
    by (rule map_idI) (simp add: fixed)
  moreover have "filter (\<lambda>item. \<not> shouldDrop item) cleaned = cleaned"
    by (rule filter_True) (simp add: fixed)
  moreover have "deepClean (JArray xs) = JArray cleaned"
    by (simp add: cleaned_def)
  ultimately show ?case by simp
next
  case (2 es)
  define entries where "entries = filter (\<lambda>(key, val). \<not> shouldDrop val)
                      (map (\<lambda>(key, val). (key, deepClean val)) es)"
  define kept where "kept = filter (\<lambda>(key, val). key \<noteq> ''__proto__'') entries"
  define r where "r = foldl (\<lambda>acc (key, val). obj_set acc key val) [] kept"
  have sub: "set r \<subseteq> set kept" using rebuild_entries [of "[]" kept] by (simp add: r_def)
  have fixed: "deepClean val = val \<and> \<not> shouldDrop val" if "(key, val) \<in> set r" for key val
  proof -
    from that sub have "(key, val) \<in> set entries" unfolding kept_def by auto
    then obtain u where "(key, u) \<in> set es" "val = deepClean u" "\<not> shouldDrop val"
      unfolding entries_def by auto
    then show ?thesis using 2 [of "(key, u)" key u] by simp
  qed
  have m: "map (\<lambda>(key, val). (key, deepClean val)) r = r"
    by (rule map_idI) (auto simp: fixed)
  have f: "filter (\<lambda>(key, val). \<not> shouldDrop val) r = r"
    by (rule filter_True) (auto simp: fixed)
  have np: "filter (\<lambda>(key, val). key \<noteq> ''__proto__'') r = r"
    by (rule filter_True) (use sub in \<open>auto simp: kept_def\<close>)
  have d: "distinct (map fst r)"
    using distinct_spread [of "[]" kept] by (simp add: spread_def r_def)
  have rb: "foldl (\<lambda>acc (key, val). obj_set acc key val) [] r = r"
    using rebuild_distinct [OF d, of "[]"] by simp
  have one: "deepClean (JObject es) = JObject r"
    by (simp add: entries_def kept_def r_def assign_fold)
  have "deepClean (JObject r) = JObject r"
    by (simp add: m f assign_fold np rb)
  then show ?case by (simp only: one)
qed simp_all


lemma deepClean_inside: "no_droppable_inside (deepClean v)"
proof (induction v rule: deepClean.induct)
  case (1 xs)
  have "\<not> shouldDrop y \<and> no_droppable_inside y"
    if "y \<in> set (filter (\<lambda>item. \<not> shouldDrop item) (map deepClean xs))" for y
    using that 1 by auto
  then show ?case by (simp add: list_all_iff)
next
  case (2 es)
  define entries where "entries = filter (\<lambda>(key, val). \<not> shouldDrop val)
                      (map (\<lambda>(key, val). (key, deepClean val)) es)"
  define kept where "kept = filter (\<lambda>(key, val). key \<noteq> ''__proto__'') entries"
  define r where "r = foldl (\<lambda>acc (key, val). obj_set acc key val) [] kept"
  have sub: "set r \<subseteq> set kept" using rebuild_entries [of "[]" kept] by (simp add: r_def)
  have "\<not> shouldDrop val \<and> no_droppable_inside val" if "(key, val) \<in> set r" for key val
  proof -
    from that sub have "(key, val) \<in> set entries" unfolding kept_def by auto
    then obtain u where "(key, u) \<in> set es" "val = deepClean u" "\<not> shouldDrop val"
      unfolding entries_def by auto
    then show ?thesis using 2 [of "(key, u)" key u] by simp
  qed
  then have "no_droppable_inside (JObject r)" by (auto simp: list_all_iff)
  moreover have "deepClean (JObject es) = JObject r"
    by (simp add: entries_def kept_def r_def assign_fold)
  ultimately show ?case by (simp only:)
qed simp_all

lemma or_default_trimmed:
  assumes "version_trimmed doc = Inr t"
  shows "or_default t \<noteq> [] \<and> trim (or_default t) = or_default t"
proof (cases t)
  case None
  then show ?thesis using trim_default by (simp add: or_default_def)
next
  case (Some w)
  then obtain s where "w = trim s"
    using assms by (auto simp: version_trimmed_def split: option.splits json.splits)
  then show ?thesis using Some trim_default trim_idem [of s] by (simp add: or_default_def)
qed

lemma filter_map_of:
  "distinct (map fst xs) \<Longrightarrow> (k, v) \<in> set xs \<Longrightarrow> P (k, v) \<Longrightarrow>
   map_of (filter P xs) k = Some v"
  by (simp add: distinct_map_filter)

lemma normalizeDocument_twice_eq:
  assumes "distinct (map fst doc)"
  shows "normalizeDocument_twice doc = normalizeDocument doc"
proof (cases "version_trimmed doc")
  case (Inl e)
  then show ?thesis by (simp add: normalizeDocument_twice_def normalizeDocument_def)
next
  case (Inr t)
  define v where "v = or_default t"
  define d1 where "d1 = obj_set (spread [] doc) ''version'' (JString v)"
  define entries where "entries = filter (\<lambda>(key, val). \<not> shouldDrop val)
                      (map (\<lambda>(key, val). (key, deepClean val)) d1)"
  define kept where "kept = filter (\<lambda>(key, val). key \<noteq> ''__proto__'') entries"
  have v: "v \<noteq> []" "trim v = v" using or_default_trimmed [OF Inr] by (simp_all add: v_def)
  have once: "normalizeDocument doc = Inr (deepClean (JObject d1))"
    using Inr by (simp add: normalizeDocument_def d1_def v_def Let_def del: deepClean.simps)
  have dd1: "distinct (map fst d1)"
    unfolding d1_def by (intro distinct_obj_set distinct_spread) simp
  have in1: "(''version'', JString v) \<in> set d1"
    using map_of_obj_set [of "spread [] doc" "''version''" "JString v"]
    by (simp add: d1_def map_of_SomeD)
  have keys: "map fst (map (\<lambda>(key, val). (key, deepClean val)) d1) = map fst d1"
    by (induction d1) auto
  have "distinct (map fst (map (\<lambda>(key, val). (key, deepClean val)) d1))"
    using dd1 by (simp only: keys)
  then have "distinct (map fst entries)"
    unfolding entries_def by (rule distinct_map_filter)
  then have de: "distinct (map fst kept)"
    unfolding kept_def by (rule distinct_map_filter)
  have "(''version'', JString v) \<in> set kept"
    unfolding kept_def entries_def using in1 v by force
  then have look: "map_of kept ''version'' = Some (JString v)"
    using de by simp
  have clean: "deepClean (JObject d1) = JObject kept"
    using rebuild_distinct [OF de, of "[]"] by (simp add: entries_def kept_def assign_fold)
  have vt: "version_trimmed kept = Inr (Some v)"
    using look v by (simp add: version_trimmed_def)
  have "obj_set (spread [] kept) ''version'' (JString (or_default (Some v))) = kept"
    using look v de by (simp add: or_default_def spread_empty_distinct obj_set_same)
  then have "normalizeDocument kept = Inr (deepClean (JObject kept))"
    using vt by (simp add: normalizeDocument_def Let_def del: deepClean.simps)
  also have "\<dots> = Inr (deepClean (JObject d1))"
    using deepClean_twice [of "JObject d1"] by (simp only: clean)
  finally show ?thesis
    by (simp add: normalizeDocument_twice_def once clean del: deepClean.simps)
qed


text \<open>
  Claim C10, as amended. \<open>deepClean\<close> is idempotent, and no value below the root of
  its result, at any depth, is \<open>undefined\<close>, \<open>null\<close>, a white-space-only string, an
  empty array or an empty object. Hence for a document object (its keys distinct, as the
  keys of an object are) \<open>normalizeDocument\<close> applied twice gives what it gives applied
  once, the \<open>TypeError\<close> of a version that is not a string included.
\<close>

theorem deepClean_idempotent_clean_inside:
  "deepClean (deepClean v) = deepClean v
   \<and> no_droppable_inside (deepClean v)
   \<and> (distinct (map fst doc) \<longrightarrow> normalizeDocument_twice doc = normalizeDocument doc)"
  using deepClean_twice [of v] deepClean_inside [of v] normalizeDocument_twice_eq [of doc]
  by blast

theorem deepClean_idempotent_clean_inside_witness:
  "distinct (map fst sample_document)
   \<and> normalizeDocument sample_document =
       Inr (JObject [(''version'', JString ''0.2''),
                     (''flows'', JArray [JObject [(''id'', JString ''main'')]])])
   \<and> normalizeDocument_twice sample_document = normalizeDocument sample_document
   \<and> deepClean (deepClean (JObject sample_document)) = deepClean (JObject sample_document)
   \<and> no_droppable_inside (deepClean (JObject sample_document))"
proof -
  have d: "distinct (map fst sample_document)"
    by (simp add: sample_document_def)
  have n: "normalizeDocument sample_document =
       Inr (JObject [(''version'', JString ''0.2''),
                     (''flows'', JArray [JObject [(''id'', JString ''main'')]])])"
    by (simp add: sample_document_def normalizeDocument_def version_trimmed_def or_default_def
        spread_def assign_def trim_def is_space_def)
  from deepClean_idempotent_clean_inside [of "JObject sample_document" sample_document] d n
  show ?thesis by (simp only: simp_thms)
qed

text \<open>
  The root is not covered: \<open>deepClean\<close> returns its argument's cleaned form whatever it
  is, so the result of cleaning \<open>null\<close> is \<open>null\<close> and that of cleaning
  \<open>[null]\<close> is the empty array.
\<close>

theorem deepClean_root_droppable:
  "deepClean JNull = JNull
   \<and> deepClean (JArray [JNull]) = JArray []
   \<and> shouldDrop (deepClean (JArray [JNull]))
   \<and> \<not> no_droppable_anywhere (deepClean (JArray [JNull]))"
  by (simp add: no_droppable_anywhere_def)

text \<open>
  An entry with the key \<open>"__proto__"\<close> is not among the entries of the result, and an
  object that had no other entry is dropped by the object that holds it.
\<close>

lemma deepClean_proto_key:
  "deepClean (JObject [(''__proto__'', JObject [(''a'', JString ''b'')]),
                       (''k'', JString ''v''),
                       (''x'', JObject [(''__proto__'', JObject [(''a'', JString ''b'')])])])
     = JObject [(''k'', JString ''v'')]"
  by (simp add: assign_def trim_def is_space_def)

section \<open>Properties of the node editor\<close>

text \<open>
  The editor's cycle prevention hides the flows with the id of the first flow that holds a
  node with the edited node's id, and nothing else. In the document of the flows \<open>P\<close>
  and \<open>Q\<close>, where \<open>P\<close> invokes \<open>Q\<close>, the choices for the Subflow node \<open>s2\<close> of
  \<open>Q\<close> still include \<open>P\<close>: a cycle through two flows can be authored.
\<close>

theorem subflow_choices_hide_owner_only:
  "set (subflow_choices flows base) =
     (case find (holds_node base) flows of
        None \<Rightarrow> set flows
      | Some owner \<Rightarrow> {f \<in> set flows. flow_id f \<noteq> flow_id owner})
   \<and> subflow_choices [caller_flow, callee_flow]
        (node_base (with_inputs
           ((createFlowNode [] TSubflow (Some ''s2''))\<lparr>node_kind := SubflowNode ''P''\<rparr>)
           [''a/out''])) = [caller_flow]"
proof
  have "(\<lambda>af. list_ex (\<lambda>n. base_id (node_base n) = base_id base) (flow_nodes af))
          = holds_node base"
    by (simp add: holds_node_def fun_eq_iff)
  then show "set (subflow_choices flows base) =
     (case find (holds_node base) flows of
        None \<Rightarrow> set flows
      | Some owner \<Rightarrow> {f \<in> set flows. flow_id f \<noteq> flow_id owner})"
    by (auto simp: subflow_choices_def split: option.splits)
  show "subflow_choices [caller_flow, callee_flow]
        (node_base (with_inputs
           ((createFlowNode [] TSubflow (Some ''s2''))\<lparr>node_kind := SubflowNode ''P''\<rparr>)
           [''a/out''])) = [caller_flow]"
    by (simp add: subflow_choices_def caller_flow_def callee_flow_def with_inputs_def
        default_base_def)
qed

section \<open>Properties of the modelled engine\<close>

lemma find_node_id: "find_node flow n = Some node \<Longrightarrow> base_id (node_base node) = n"
  by (auto simp: find_node_def find_Some_iff)

lemma find_node_member: "find_node flow n = Some node \<Longrightarrow> node \<in> set (flow_nodes flow)"
  by (auto simp: find_node_def find_Some_iff)

lemma find_flow_id: "find_flow doc f = Some flow \<Longrightarrow> flow_id flow = f"
  by (auto simp: find_flow_def find_Some_iff)

lemma produced_emit:
  "produced ctx slot \<noteq> None \<Longrightarrow>
   produced (ctx\<lparr>ctx_bindings := (k, v) # ctx_bindings ctx, ctx_transcript := t\<rparr>) slot \<noteq> None"
  by (simp add: produced_def)

lemma satisfied_emit:
  "satisfied ctx node \<Longrightarrow>
   satisfied (ctx\<lparr>ctx_bindings := (k, v) # ctx_bindings ctx, ctx_transcript := t\<rparr>) node"
  unfolding satisfied_def list_all_iff using produced_emit by blast

lemma emit_along_fields:
  "fr_flow (emit_along eng fr n l v turns es) = fr_flow fr"
  "fr_caller (emit_along eng fr n l v turns es) = fr_caller fr"
  "fr_events (emit_along eng fr n l v turns es) = fr_events fr @ [n]"
  "ctx_stack (fr_ctx (emit_along eng fr n l v turns es)) = ctx_stack (fr_ctx fr)"
  "ctx_iterations (fr_ctx (emit_along eng fr n l v turns es)) = ctx_iterations (fr_ctx fr)"
  "ctx_transcript (fr_ctx (emit_along eng fr n l v turns es)) = ctx_transcript (fr_ctx fr) @ turns"
  "fr_ctx (emit_along eng fr n l v turns es) =
     (fr_ctx fr)\<lparr>ctx_bindings := (n @ ''/'' @ l, v) # ctx_bindings (fr_ctx fr),
                 ctx_transcript := ctx_transcript (fr_ctx fr) @ turns\<rparr>"
  by (simp_all add: emit_along_def Let_def)

lemma emit_along_ready:
  "set (fr_ready fr) \<subseteq> set (fr_ready (emit_along eng fr n l v turns es))"
  by (simp add: emit_along_def Let_def)

lemma satisfied_count: "satisfied (count_iteration ctx n c) node = satisfied ctx node"
  by (simp add: satisfied_def count_iteration_def produced_def)

lemma count_iteration_fields:
  "ctx_stack (count_iteration ctx n c) = ctx_stack ctx"
  "ctx_transcript (count_iteration ctx n c) = ctx_transcript ctx"
  "ctx_bindings (count_iteration ctx n c) = ctx_bindings ctx"
  by (simp_all add: count_iteration_def)

lemma merges_ok_emit:
  assumes "merges_ok fr"
      and "\<And>node. find_node (fr_flow fr) n = Some node \<Longrightarrow> node_kind node = MergeNode \<Longrightarrow>
             satisfied (fr_ctx fr) node"
  shows "merges_ok (emit_along eng fr n l v turns es)"
  using assms
  unfolding merges_ok_def list_all_iff
  by (auto simp: emit_along_fields satisfied_emit split: option.splits)

lemma joins_ok_emit:
  assumes "joins_ok (fr\<lparr>fr_ready := n # fr_ready fr\<rparr>)"
  shows "joins_ok (emit_along eng fr n l v turns es)"
  unfolding joins_ok_def list_all_iff
proof (intro ballI impI)
  fix node :: FlowNode
  let ?m = "base_id (node_base node)"
  let ?slot = "n @ ''/'' @ l"
  let ?ctx = "(fr_ctx fr)\<lparr>ctx_bindings := (?slot, v) # ctx_bindings (fr_ctx fr),
                 ctx_transcript := ctx_transcript (fr_ctx fr) @ turns\<rparr>"
  let ?fr = "emit_along eng fr n l v turns es"
  assume mem: "node \<in> set (flow_nodes (fr_flow ?fr))"
  assume h: "find_node (fr_flow ?fr) ?m = Some node \<and> node_kind node = MergeNode
     \<and> declared_inputs node \<noteq> [] \<and> satisfied (fr_ctx ?fr) node"
  then have f: "find_node (fr_flow fr) ?m = Some node" and k: "node_kind node = MergeNode"
    and d: "declared_inputs node \<noteq> []" and s: "satisfied ?ctx node"
    by (simp_all add: emit_along_fields)
  have memn: "node \<in> set (flow_nodes (fr_flow fr))" using mem by (simp add: emit_along_fields)
  show "?m \<in> set (fr_events ?fr) \<or> ?m \<in> set (fr_ready ?fr)"
  proof (cases "satisfied (fr_ctx fr) node")
    case True
    then have "?m \<in> set (fr_events fr) \<or> ?m \<in> set (n # fr_ready fr)"
      using assms memn f k d unfolding joins_ok_def list_all_iff by auto
    then show ?thesis using emit_along_ready [of fr eng n l v turns es]
      by (auto simp: emit_along_fields)
  next
    case False
    then obtain i where i: "i \<in> set (declared_inputs node)" "produced (fr_ctx fr) (input_from i) = None"
      unfolding satisfied_def list_all_iff by auto
    have "produced ?ctx (input_from i) \<noteq> None"
      using s i(1) unfolding satisfied_def list_all_iff by auto
    then have "input_from i = ?slot" using i(2) by (auto simp: produced_def split: if_splits)
    then have "?m \<in> set (joined (fr_flow fr) ?slot)"
      using memn k i(1) unfolding joined_def by force
    moreover have "becomes_ready (fr_flow fr) ?ctx ?m"
      using f s by (simp add: becomes_ready_def)
    ultimately show ?thesis
      by (auto simp: emit_along_def Let_def)
  qed
qed

lemma joins_ok_more:
  "joins_ok fr \<Longrightarrow> joins_ok (fr\<lparr>fr_ready := n # fr_ready fr\<rparr>)"
  unfolding joins_ok_def list_all_iff by auto

lemma joins_ok_popped:
  assumes "joins_ok fr" and "fr_ready fr = n # rest" and "find_node (fr_flow fr) n = Some node"
      and "node_kind node = MergeNode \<Longrightarrow> \<not> satisfied (fr_ctx fr) node"
  shows "joins_ok (fr\<lparr>fr_ready := rest\<rparr>)"
  unfolding joins_ok_def list_all_iff
proof (intro ballI impI)
  fix x :: FlowNode
  let ?m = "base_id (node_base x)"
  let ?fr = "fr\<lparr>fr_ready := rest\<rparr>"
  assume mem: "x \<in> set (flow_nodes (fr_flow ?fr))"
  assume h: "find_node (fr_flow ?fr) ?m = Some x \<and> node_kind x = MergeNode
     \<and> declared_inputs x \<noteq> [] \<and> satisfied (fr_ctx ?fr) x"
  then have "?m \<in> set (fr_events fr) \<or> ?m \<in> set (n # rest)"
    using assms(1,2) mem unfolding joins_ok_def list_all_iff by auto
  moreover have "?m \<noteq> n" using h assms(3,4) by auto
  ultimately show "?m \<in> set (fr_events ?fr) \<or> ?m \<in> set (fr_ready ?fr)" by auto
qed

lemma joins_ok_count:
  "joins_ok (fr\<lparr>fr_ctx := count_iteration (fr_ctx fr) n c\<rparr>) = joins_ok fr"
  by (simp add: joins_ok_def satisfied_count)

lemma merges_ok_count:
  "merges_ok (fr\<lparr>fr_ctx := count_iteration (fr_ctx fr) n c\<rparr>) = merges_ok fr"
  by (simp add: merges_ok_def satisfied_count cong: option.case_cong)

lemma callers_ok_cong:
  "fr_caller fr' = fr_caller fr \<Longrightarrow> fr_flow fr' = fr_flow fr \<Longrightarrow>
   callers_ok fr' frs = callers_ok fr frs"
  by (cases frs) (simp_all cong: option.case_cong)

lemma stack_ok_cong:
  "fr_flow fr' = fr_flow fr \<Longrightarrow> ctx_stack (fr_ctx fr') = ctx_stack (fr_ctx fr) \<Longrightarrow>
   stack_ok fr' frs = stack_ok fr frs"
  by (cases frs) simp_all

lemma merges_ok_popped: "merges_ok (fr\<lparr>fr_ready := rest\<rparr>) = merges_ok fr"
  by (simp add: merges_ok_def cong: option.case_cong)

text \<open>
  The part of the invariant that does not depend on what is ready: it is kept by every
  change of a frame that leaves its flow, its caller and its call stack as they are.
\<close>

lemma run_ok_frame_change:
  assumes "run_ok eng (Running fr frs)"
      and "merges_ok fr'" and "joins_ok fr'"
      and "fr_flow fr' = fr_flow fr" and "fr_caller fr' = fr_caller fr"
      and "ctx_stack (fr_ctx fr') = ctx_stack (fr_ctx fr)"
  shows "run_ok eng (Running fr' frs)"
  using assms callers_ok_cong [of fr' fr frs] stack_ok_cong [of fr' fr frs]
  by (simp add: known_def)

lemma run_ok_emit:
  assumes "run_ok eng (Running fr frs)" and "fr_ready fr = n # rest"
      and "\<And>node. find_node (fr_flow fr) n = Some node \<Longrightarrow> node_kind node = MergeNode \<Longrightarrow>
             satisfied (fr_ctx fr) node"
  shows "run_ok eng (Running (emit_along eng (fr\<lparr>fr_ready := rest\<rparr>) n l v turns es) frs)"
proof (rule run_ok_frame_change [OF assms(1)])
  have "merges_ok (fr\<lparr>fr_ready := rest\<rparr>)" using assms(1) by (simp add: merges_ok_popped)
  then show "merges_ok (emit_along eng (fr\<lparr>fr_ready := rest\<rparr>) n l v turns es)"
    by (rule merges_ok_emit) (use assms(3) in simp)
  have "joins_ok ((fr\<lparr>fr_ready := rest\<rparr>)\<lparr>fr_ready := n # fr_ready (fr\<lparr>fr_ready := rest\<rparr>)\<rparr>)"
    using assms(1,2) by (simp add: joins_ok_def)
  then show "joins_ok (emit_along eng (fr\<lparr>fr_ready := rest\<rparr>) n l v turns es)"
    by (rule joins_ok_emit)
qed (simp_all add: emit_along_fields)

lemma run_ok_drop:
  assumes "run_ok eng (Running fr frs)" and "fr_ready fr = n # rest"
      and "find_node (fr_flow fr) n = Some node"
      and "node_kind node = MergeNode \<Longrightarrow> \<not> satisfied (fr_ctx fr) node"
  shows "run_ok eng (Running (fr\<lparr>fr_ready := rest\<rparr>) frs)"
proof (rule run_ok_frame_change [OF assms(1)])
  show "merges_ok (fr\<lparr>fr_ready := rest\<rparr>)" using assms(1) by (simp add: merges_ok_popped)
  have "joins_ok fr" using assms(1) by simp
  then show "joins_ok (fr\<lparr>fr_ready := rest\<rparr>)"
    using assms(2-4) by (rule joins_ok_popped)
qed simp_all

lemma run_ok_merge:
  assumes "run_ok eng (Running fr frs)" and "fr_ready fr = n # rest"
      and "find_node (fr_flow fr) n = Some node"
  shows "run_ok eng (Running (merge_handler eng (fr\<lparr>fr_ready := rest\<rparr>) node) frs)"
proof (cases "satisfied (fr_ctx fr) node")
  case True
  have "base_id (node_base node) = n" using assms(3) by (rule find_node_id)
  then show ?thesis
    using True assms(3) run_ok_emit [OF assms(1,2)]
    by (simp add: merge_handler_def emit_def)
next
  case False
  then show ?thesis using run_ok_drop [OF assms] by (simp add: merge_handler_def)
qed

lemma run_ok_loop:
  assumes "run_ok eng (Running fr frs)" and "fr_ready fr = n # rest"
      and "find_node (fr_flow fr) n = Some node" and "node_kind node = LoopNode mx cond"
  shows "run_ok eng (Running (loop_handler eng (fr\<lparr>fr_ready := rest\<rparr>) node limit) frs)"
proof -
  have id: "base_id (node_base node) = n" using assms(3) by (rule find_node_id)
  have dropped: "run_ok eng (Running (fr\<lparr>fr_ready := rest\<rparr>) frs)"
    using assms by (intro run_ok_drop [OF assms(1-3)]) simp
  have counted: "run_ok eng (Running (fr\<lparr>fr_ctx := count_iteration (fr_ctx fr) n c\<rparr>) frs)" for c
    by (rule run_ok_frame_change [OF assms(1)])
       (use assms(1) in \<open>simp_all add: merges_ok_count joins_ok_count count_iteration_fields\<close>)
  have emitted: "run_ok eng (Running
      (emit_along eng (fr\<lparr>fr_ready := rest, fr_ctx := count_iteration (fr_ctx fr) n c\<rparr>)
         n l v turns es) frs)" for c l v turns es
  proof -
    have "fr\<lparr>fr_ready := rest, fr_ctx := count_iteration (fr_ctx fr) n c\<rparr>
            = (fr\<lparr>fr_ctx := count_iteration (fr_ctx fr) n c\<rparr>)\<lparr>fr_ready := rest\<rparr>"
      by simp
    moreover have "run_ok eng (Running
      (emit_along eng ((fr\<lparr>fr_ctx := count_iteration (fr_ctx fr) n c\<rparr>)\<lparr>fr_ready := rest\<rparr>)
         n l v turns es) frs)"
      by (rule run_ok_emit [OF counted]) (use assms(2-4) in simp_all)
    ultimately show ?thesis by (simp only:)
  qed
  show ?thesis
    using dropped emitted id by (simp add: loop_handler_def Let_def)
qed

lemma run_ok_subflow:
  assumes "run_ok eng (Running fr frs)" and "fr_ready fr = n # rest"
      and "find_node (fr_flow fr) n = Some node"
      and "node_kind node = SubflowNode target"
  shows "run_ok eng (subflow_handler eng (fr\<lparr>fr_ready := rest\<rparr>) frs n target)"
proof (cases "target \<in> set (ctx_stack (fr_ctx fr))")
  case True
  then show ?thesis by (simp add: subflow_handler_def)
next
  case False
  show ?thesis
  proof (cases "find_flow (eng_document eng) target")
    case None
    then show ?thesis using False by (simp add: subflow_handler_def)
  next
    case (Some child)
    have id: "flow_id child = target" using Some by (rule find_flow_id)
    have dropped: "run_ok eng (Running (fr\<lparr>fr_ready := rest\<rparr>) frs)"
      using assms by (intro run_ok_drop [OF assms(1-3)]) simp
    have "joins_ok (child_frame target child (fr_ctx fr) n)"
      by (auto simp: joins_ok_def child_frame_def list_all_iff satisfied_def produced_def
          neq_Nil_conv)
    then show ?thesis
      using False Some assms(3,4) id dropped
      by (simp add: subflow_handler_def child_frame_def merges_ok_def known_def)
  qed
qed

lemma run_ok_output:
  assumes "run_ok eng (Running fr frs)" and "fr_ready fr = n # rest"
      and "find_node (fr_flow fr) n = Some node" and "node_kind node = OutputNode"
  shows "run_ok eng (output_handler eng (fr\<lparr>fr_ready := rest\<rparr>) frs node)"
proof (cases "satisfied (fr_ctx fr) node")
  case False
  then show ?thesis
    using run_ok_drop [OF assms(1-3)] assms(4) by (simp add: output_handler_def)
next
  case True
  show ?thesis
  proof (cases frs)
    case Nil
    then show ?thesis using True by (simp add: output_handler_def)
  next
    case (Cons parent outer)
    then obtain caller where c: "find_node (fr_flow parent) (fr_caller fr) = Some caller"
        "node_kind caller = SubflowNode (flow_id (fr_flow fr))"
      using assms(1) by (auto split: option.splits)
    have p: "run_ok eng (Running parent outer)" using assms(1) Cons by simp
    have "run_ok eng (Running (parent\<lparr>fr_ready := fr_caller fr # fr_ready parent\<rparr>) outer)"
      by (rule run_ok_frame_change [OF p])
         (use p in \<open>simp_all add: merges_ok_def joins_ok_more cong: option.case_cong\<close>)
    then have "run_ok eng (Running
        (emit_along eng ((parent\<lparr>fr_ready := fr_caller fr # fr_ready parent\<rparr>)
             \<lparr>fr_ready := fr_ready parent\<rparr>) (fr_caller fr) l v turns es) outer)"
      for l v turns es
      by (rule run_ok_emit) (use c in simp_all)
    then show ?thesis using True Cons c by (simp add: output_handler_def Let_def emit_def)
  qed
qed

lemma run_ok_step: "run_ok eng run \<Longrightarrow> run_ok eng (step eng run)"
proof (cases run)
  case (Running fr frs)
  assume ok: "run_ok eng run"
  then have okr: "run_ok eng (Running fr frs)" using Running by simp
  show ?thesis
  proof (cases "fr_ready fr")
    case Nil
    then show ?thesis using Running by (simp add: step_def)
  next
    case (Cons n rest)
    show ?thesis
    proof (cases "find_node (fr_flow fr) n")
      case None
      then show ?thesis using Running Cons by (simp add: step_def)
    next
      case (Some node)
      have leaf: "run_ok eng (case eng_handler eng node (eng_task eng) (fr_ctx fr) of
                            Inl failure \<Rightarrow> Failed failure (ctx_transcript (fr_ctx fr))
                          | Inr (label, v, turns) \<Rightarrow>
                              Running (emit eng (fr\<lparr>fr_ready := rest\<rparr>) n label v turns) frs)"
        if "node_kind node \<noteq> MergeNode"
        using that run_ok_emit [OF okr Cons] Some
        by (auto simp: emit_def split: sum.splits)
      show ?thesis
      proof (cases "node_kind node")
        case OutputNode
        then show ?thesis
          using Running Cons Some run_ok_output [OF okr Cons Some]
          by (simp add: step_def Let_def)
      next
        case MergeNode
        then show ?thesis
          using Running Cons Some run_ok_merge [OF okr Cons Some]
          by (simp add: step_def Let_def)
      next
        case (SubflowNode target)
        then show ?thesis
          using Running Cons Some run_ok_subflow [OF okr Cons Some]
          by (simp add: step_def Let_def)
      next
        case (LoopNode mx cond)
        then show ?thesis
          using Running Cons Some run_ok_loop [OF okr Cons Some]
          by (simp add: step_def Let_def split: option.splits)
      qed (use Running Cons Some leaf in \<open>simp_all add: step_def Let_def\<close>)
    qed
  qed
qed (simp_all add: step_def)

lemma run_ok_start: "run_ok eng (start eng flowId)"
proof (cases "find_flow (eng_document eng) flowId")
  case None
  then show ?thesis by (simp add: start_def)
next
  case (Some flow)
  have "flow_id flow = flowId" using Some by (rule find_flow_id)
  then show ?thesis
    using Some
    by (auto simp: start_def merges_ok_def joins_ok_def known_def list_all_iff satisfied_def
        produced_def neq_Nil_conv)
qed

lemma run_ok_steps: "run_ok eng run \<Longrightarrow> run_ok eng (steps n eng run)"
  by (induction n arbitrary: run) (simp_all add: run_ok_step)

lemma steps_Suc_right: "steps (Suc n) eng run = step eng (steps n eng run)"
  by (induction n arbitrary: run) simp_all

lemma reachable_ok: "run_ok eng (steps n eng (start eng flowId))"
  by (rule run_ok_steps) (rule run_ok_start)

lemma stack_in_flight:
  "stack_ok fr frs \<Longrightarrow>
     ctx_stack (fr_ctx fr) = in_flight fr frs \<and> distinct (in_flight fr frs)"
proof (induction frs arbitrary: fr)
  case Nil
  then show ?case by (simp add: in_flight_def)
next
  case (Cons parent outer)
  then have "ctx_stack (fr_ctx parent) = in_flight parent outer"
      and "distinct (in_flight parent outer)"
    by simp_all
  then show ?case using Cons.prems by (simp add: in_flight_def)
qed

lemma in_flight_invokes:
  assumes "callers_ok fr frs" and "list_all (known eng) (fr # frs)"
      and "g \<in> set (in_flight fr frs)"
  shows "(invokes (eng_document eng))\<^sup>*\<^sup>* g (flow_id (fr_flow fr))"
  using assms
proof (induction frs arbitrary: fr)
  case Nil
  then show ?case by (simp add: in_flight_def)
next
  case (Cons parent outer)
  show ?case
  proof (cases "g = flow_id (fr_flow fr)")
    case True
    then show ?thesis by simp
  next
    case False
    then have "g \<in> set (in_flight parent outer)"
      using Cons.prems(3) by (simp add: in_flight_def)
    then have up: "(invokes (eng_document eng))\<^sup>*\<^sup>* g (flow_id (fr_flow parent))"
      using Cons.IH [of parent] Cons.prems(1,2) by simp
    obtain node where n: "find_node (fr_flow parent) (fr_caller fr) = Some node"
        "node_kind node = SubflowNode (flow_id (fr_flow fr))"
      using Cons.prems(1) by (auto split: option.splits)
    have "find_flow (eng_document eng) (flow_id (fr_flow parent)) = Some (fr_flow parent)"
      using Cons.prems(2) by (simp add: known_def)
    then have "invokes (eng_document eng) (flow_id (fr_flow parent)) (flow_id (fr_flow fr))"
      using n find_node_member [OF n(1)] by (auto simp: invokes_def list_ex_iff)
    then show ?thesis using up by simp
  qed
qed

text \<open>
  Claim C6. At any point of any run, the call stack of the innermost invocation lists the
  flows in flight, none of them twice: no flow is ever entered while it is being run.
  When the next ready node is a Subflow node whose target is in flight, the target
  invokes itself, directly or through the flows in flight; the step then fails with the
  cycle-detected error whatever the handlers are, and the transcript of the failure is
  the transcript as it stood before the step, so the rejected invocation makes no model
  or tool call. A target that is not in flight is not rejected as a cycle.
\<close>

theorem subflow_reentry_rejected:
  assumes "steps n eng (start eng flowId) = Running fr frs"
      and "fr_ready fr = nodeId # rest"
      and "find_node (fr_flow fr) nodeId = Some node"
      and "node_kind node = SubflowNode target"
  shows "ctx_stack (fr_ctx fr) = in_flight fr frs \<and> distinct (in_flight fr frs)
     \<and> (target \<in> set (in_flight fr frs) \<longrightarrow>
          (invokes (eng_document eng))\<^sup>+\<^sup>+ target target
        \<and> step (eng\<lparr>eng_handler := h\<rparr>) (Running fr frs) =
            Failed (CycleDetected target) (ctx_transcript (fr_ctx fr))
        \<and> steps (Suc n) eng (start eng flowId) =
            Failed (CycleDetected target) (ctx_transcript (fr_ctx fr)))
     \<and> (target \<notin> set (in_flight fr frs) \<longrightarrow>
          (\<forall>t. steps (Suc n) eng (start eng flowId) \<noteq> Failed (CycleDetected target) t))"
proof -
  have ok: "run_ok eng (Running fr frs)" using reachable_ok [of eng n flowId] assms(1) by simp
  then have st: "ctx_stack (fr_ctx fr) = in_flight fr frs" "distinct (in_flight fr frs)"
    using stack_in_flight [of fr frs] by simp_all
  have "find_flow (eng_document eng) (flow_id (fr_flow fr)) = Some (fr_flow fr)"
    using ok by (simp add: known_def)
  then have here: "invokes (eng_document eng) (flow_id (fr_flow fr)) target"
    using assms(4) find_node_member [OF assms(3)] by (auto simp: invokes_def list_ex_iff)
  have cyc: "(invokes (eng_document eng))\<^sup>+\<^sup>+ target target"
    if "target \<in> set (in_flight fr frs)"
  proof -
    have "(invokes (eng_document eng))\<^sup>*\<^sup>* target (flow_id (fr_flow fr))"
      using ok that by (intro in_flight_invokes) simp_all
    then show ?thesis using here by simp
  qed
  have any: "step e (Running fr frs) = subflow_handler e (fr\<lparr>fr_ready := rest\<rparr>) frs nodeId target"
    for e
    using assms(2-4) by (simp add: step_def Let_def)
  have rej: "step e (Running fr frs) = Failed (CycleDetected target) (ctx_transcript (fr_ctx fr))"
    if "target \<in> set (in_flight fr frs)" for e
    using that st(1) by (simp add: any subflow_handler_def)
  have acc: "step e (Running fr frs) \<noteq> Failed (CycleDetected target) t"
    if "target \<notin> set (in_flight fr frs)" for e t
    using that st(1)
    by (auto simp: any subflow_handler_def split: option.splits)
  have nxt: "steps (Suc n) eng (start eng flowId) = step eng (Running fr frs)"
    using assms(1) by (simp only: steps_Suc_right)
  show ?thesis using st rej acc nxt cyc by simp
qed

lemma caller_callee_run:
  "steps 4 (sample_engine [caller_flow, callee_flow])
     (start (sample_engine [caller_flow, callee_flow]) ''P'') = Running callee_frame [caller_frame]"
  by code_simp

lemma join_run:
  "steps 3 (sample_engine [join_flow]) (start (sample_engine [join_flow]) ''J'')
     = Running join_frame []"
  by code_simp

text \<open>
  In the document of the flows \<open>P\<close> and \<open>Q\<close>, \<open>P\<close> invokes \<open>Q\<close> and \<open>Q\<close>, after
  its agent, invokes \<open>P\<close>: the second invocation is rejected, with the turn of the agent
  that ran before it in the transcript.
\<close>

theorem subflow_reentry_rejected_witness:
  "steps 4 (sample_engine [caller_flow, callee_flow])
     (start (sample_engine [caller_flow, callee_flow]) ''P'') = Running callee_frame [caller_frame]
   \<and> in_flight callee_frame [caller_frame] = [''Q'', ''P'']
   \<and> (invokes (eng_document (sample_engine [caller_flow, callee_flow])))\<^sup>+\<^sup>+ ''P'' ''P''
   \<and> steps (Suc 4) (sample_engine [caller_flow, callee_flow])
     (start (sample_engine [caller_flow, callee_flow]) ''P'')
       = Failed (CycleDetected ''P'') [\<lparr>turn_node = ''a'', turn_text = ''hello''\<rparr>]"
proof -
  let ?node = "with_inputs ((createFlowNode [] TSubflow (Some ''s2''))\<lparr>node_kind := SubflowNode ''P''\<rparr>)
           [''a/out'']"
  have r: "fr_ready callee_frame = ''s2'' # []" by (simp add: callee_frame_def)
  have f: "find_node (fr_flow callee_frame) ''s2'' = Some ?node"
    by (simp add: callee_frame_def callee_flow_def find_node_def with_inputs_def default_base_def)
  have k: "node_kind ?node = SubflowNode ''P''" by (simp add: with_inputs_def)
  have i: "in_flight callee_frame [caller_frame] = [''Q'', ''P'']"
    by (simp add: in_flight_def callee_frame_def caller_frame_def callee_flow_def caller_flow_def)
  have t: "ctx_transcript (fr_ctx callee_frame) = [\<lparr>turn_node = ''a'', turn_text = ''hello''\<rparr>]"
    by (simp add: callee_frame_def)
  from subflow_reentry_rejected [OF caller_callee_run r f k, of echo_handler] i t caller_callee_run
  show ?thesis by simp
qed

lemma guard_true_any_handler: "guard_true (eng\<lparr>eng_handler := h\<rparr>) = guard_true eng"
  by (simp add: fun_eq_iff guard_true_def cong: option.case_cong)

lemma merge_handler_any_handler:
  "merge_handler (eng\<lparr>eng_handler := h\<rparr>) fr node = merge_handler eng fr node"
  by (simp add: merge_handler_def emit_def emit_along_def guard_true_any_handler)

lemma run_ok_frame:
  "run_ok eng (Running fr frs) \<Longrightarrow> f \<in> set (fr # frs) \<Longrightarrow> merges_ok f \<and> joins_ok f"
  by (auto simp: list_all_iff)

text \<open>
  Claim C7. In every invocation in flight at any point of any run, a Merge node that has
  fired has all its declared inputs produced, and a Merge node all of whose declared
  inputs are produced has fired or is in the ready set, whether or not an edge leads to
  it (so a run does not come to a dead end before it has fired). When a Merge node is the
  next ready node, the step is the Merge handler's alone, whatever the other handlers
  are, and it leaves the transcript as it is (it calls no model); with every declared
  input produced the node fires and binds the collection of the values of its inputs at
  its output, and with an input withheld the step changes nothing but the ready set.
\<close>

theorem merge_fires_iff_inputs_produced:
  assumes "steps n eng (start eng flowId) = Running fr frs"
      and "f \<in> set (fr # frs)"
      and "find_node (fr_flow f) m = Some node"
      and "node_kind node = MergeNode"
      and "declared_inputs node \<noteq> []"
  shows "(m \<in> set (fr_events f) \<longrightarrow> satisfied (fr_ctx f) node)
     \<and> (satisfied (fr_ctx f) node \<longrightarrow> m \<in> set (fr_events f) \<or> m \<in> set (fr_ready f))
     \<and> (f = fr \<and> fr_ready fr = m # rest \<longrightarrow>
          step (eng\<lparr>eng_handler := h\<rparr>) (Running fr frs) =
            Running (merge_handler eng (fr\<lparr>fr_ready := rest\<rparr>) node) frs
        \<and> ctx_transcript (fr_ctx (merge_handler eng (fr\<lparr>fr_ready := rest\<rparr>) node)) =
            ctx_transcript (fr_ctx fr)
        \<and> (satisfied (fr_ctx fr) node \<longrightarrow>
             fr_events (merge_handler eng (fr\<lparr>fr_ready := rest\<rparr>) node) = fr_events fr @ [m]
           \<and> produced (fr_ctx (merge_handler eng (fr\<lparr>fr_ready := rest\<rparr>) node))
                (m @ ''/'' @ sole_output node) =
                Some (Collection (input_values (fr_flow fr) (fr_ctx fr) node)))
        \<and> (\<not> satisfied (fr_ctx fr) node \<longrightarrow>
             merge_handler eng (fr\<lparr>fr_ready := rest\<rparr>) node = fr\<lparr>fr_ready := rest\<rparr>))"
proof (intro conjI impI)
  have "run_ok eng (Running fr frs)" using reachable_ok [of eng n flowId] assms(1) by simp
  then have ok: "merges_ok f" "joins_ok f" using assms(2) run_ok_frame by blast+
  have id: "base_id (node_base node) = m" using assms(3) by (rule find_node_id)
  show "satisfied (fr_ctx f) node" if "m \<in> set (fr_events f)"
    using ok(1) that assms(3,4) unfolding merges_ok_def list_all_iff by fastforce
  show "m \<in> set (fr_events f) \<or> m \<in> set (fr_ready f)" if "satisfied (fr_ctx f) node"
    using ok(2) that assms(3-5) id find_node_member [OF assms(3)]
    unfolding joins_ok_def list_all_iff by blast
next
  assume a: "f = fr \<and> fr_ready fr = m # rest"
  have id: "base_id (node_base node) = m" using assms(3) by (rule find_node_id)
  show "step (eng\<lparr>eng_handler := h\<rparr>) (Running fr frs) =
            Running (merge_handler eng (fr\<lparr>fr_ready := rest\<rparr>) node) frs"
    using a assms(3,4) by (simp add: step_def Let_def merge_handler_any_handler)
  show "ctx_transcript (fr_ctx (merge_handler eng (fr\<lparr>fr_ready := rest\<rparr>) node)) =
            ctx_transcript (fr_ctx fr)"
    by (simp add: merge_handler_def emit_def emit_along_fields)
  show "fr_events (merge_handler eng (fr\<lparr>fr_ready := rest\<rparr>) node) = fr_events fr @ [m]"
    if "satisfied (fr_ctx fr) node"
    using that id by (simp add: merge_handler_def emit_def emit_along_fields)
  show "produced (fr_ctx (merge_handler eng (fr\<lparr>fr_ready := rest\<rparr>) node))
                (m @ ''/'' @ sole_output node) =
                Some (Collection (input_values (fr_flow fr) (fr_ctx fr) node))"
    if "satisfied (fr_ctx fr) node"
    using that id by (simp add: merge_handler_def emit_def emit_along_fields produced_def)
  show "merge_handler eng (fr\<lparr>fr_ready := rest\<rparr>) node = fr\<lparr>fr_ready := rest\<rparr>"
    if "\<not> satisfied (fr_ctx fr) node"
    using that by (simp add: merge_handler_def)
qed

text \<open>
  In the join flow the Merge node \<open>m\<close> is ready once \<open>a\<close> and \<open>b\<close> have run; it
  fires and binds the values of \<open>a/out\<close> and \<open>b/out\<close>.
\<close>

theorem merge_fires_iff_inputs_produced_witness:
  "steps 3 (sample_engine [join_flow]) (start (sample_engine [join_flow]) ''J'')
     = Running join_frame []
   \<and> satisfied (fr_ctx join_frame)
        (with_inputs (createFlowNode [] TMerge (Some ''m'')) [''a/out'', ''b/out''])
   \<and> ''m'' \<in> set (fr_ready join_frame)
   \<and> step (sample_engine [join_flow]) (Running join_frame []) =
        Running (merge_handler (sample_engine [join_flow]) (join_frame\<lparr>fr_ready := []\<rparr>)
          (with_inputs (createFlowNode [] TMerge (Some ''m'')) [''a/out'', ''b/out''])) []
   \<and> fr_events (merge_handler (sample_engine [join_flow]) (join_frame\<lparr>fr_ready := []\<rparr>)
          (with_inputs (createFlowNode [] TMerge (Some ''m'')) [''a/out'', ''b/out'']))
        = [''start'', ''a'', ''b'', ''m'']
   \<and> produced (fr_ctx (merge_handler (sample_engine [join_flow]) (join_frame\<lparr>fr_ready := []\<rparr>)
          (with_inputs (createFlowNode [] TMerge (Some ''m'')) [''a/out'', ''b/out''])))
        ''m/out'' = Some (Collection [Text ''hello'', Text ''hello''])"
proof -
  let ?node = "with_inputs (createFlowNode [] TMerge (Some ''m'')) [''a/out'', ''b/out'']"
  have f: "find_node (fr_flow join_frame) ''m'' = Some ?node"
    by (simp add: join_frame_def join_flow_def find_node_def with_inputs_def default_base_def)
  have k: "node_kind ?node = MergeNode" by (simp add: with_inputs_def)
  have d: "declared_inputs ?node \<noteq> []" by (simp add: declared_inputs_def with_inputs_def)
  have s: "satisfied (fr_ctx join_frame) ?node"
    by (simp add: satisfied_def declared_inputs_def with_inputs_def join_frame_def produced_def)
  have r: "fr_ready join_frame = ''m'' # []" by (simp add: join_frame_def)
  have so: "sole_output ?node = ''out''"
    by (simp add: sole_output_def declared_outputs_def with_inputs_def default_base_def out_slot_def)
  have iv: "input_values (fr_flow join_frame) (fr_ctx join_frame) ?node
              = [Text ''hello'', Text ''hello'']"
    by code_simp
  have e: "fr_events join_frame = [''start'', ''a'', ''b'']" by (simp add: join_frame_def)
  have h: "(sample_engine [join_flow])\<lparr>eng_handler := echo_handler\<rparr> = sample_engine [join_flow]"
    by (simp add: sample_engine_def)
  from merge_fires_iff_inputs_produced
         [OF join_run _ f k d, where rest = "[]" and h = echo_handler]
       s r so iv e h join_run
  show ?thesis by simp
qed

text \<open>
  With the edge into \<open>b\<close> removed, the input \<open>b/out\<close> of the Merge node is withheld:
  the Merge node never becomes ready, and the run ends in a dead end after the turn of
  \<open>a\<close>.
\<close>

lemma merge_starved:
  "steps 3 (sample_engine [starved_flow]) (start (sample_engine [starved_flow]) ''J'')
     = Failed (DeadEnd ''J'') [\<lparr>turn_node = ''a'', turn_text = ''hello''\<rparr>]"
  by code_simp

text \<open>
  With the edge from \<open>b\<close> to the Merge node removed instead, both inputs are produced and
  the Merge node fires, though no edge into it is resolved after \<open>b\<close> has run: the run
  ends at the Output node with the values of both inputs.
\<close>

lemma merge_fires_without_edge:
  "steps 5 (sample_engine [unwired_flow]) (start (sample_engine [unwired_flow]) ''J'')
     = Finished (Collection [Collection [Text ''hello'', Text ''hello'']])
         [\<lparr>turn_node = ''a'', turn_text = ''hello''\<rparr>, \<lparr>turn_node = ''b'', turn_text = ''hello''\<rparr>]"
  by code_simp

text \<open>
  A Loop node with three iterations at most and no break condition has its body run
  three times and is then left, and the run goes on to the Output node (section 8: "Loop
  with \<open>max_iterations = 3\<close> and a break condition that is always false executes exactly 3
  iterations, then exits normally").
\<close>

lemma loop_runs_three_times:
  "steps 9 (sample_engine [loop_flow]) (start (sample_engine [loop_flow]) ''L'')
     = Finished (Collection [Collection [Text ''hello'', Text ''hello'']])
         [\<lparr>turn_node = ''b'', turn_text = ''hello''\<rparr>, \<lparr>turn_node = ''b'', turn_text = ''hello''\<rparr>,
          \<lparr>turn_node = ''b'', turn_text = ''hello''\<rparr>]"
  by code_simp

section \<open>Properties of the modelled engine: the outcome of a run\<close>

lemma steps_add: "steps (a + b) eng run = steps b eng (steps a eng run)"
  by (induction a arbitrary: run) simp_all

lemma step_ended: "ended run \<Longrightarrow> step eng run = run"
  by (cases run) (simp_all add: step_def)

lemma steps_ended: "ended run \<Longrightarrow> steps n eng run = run"
  by (induction n) (simp_all add: step_ended)

lemma source_of_slot: "n \<in> set (slot_sources (n @ ''/'' @ l))"
proof -
  let ?s = "n @ ''/'' @ l"
  have "length n \<in> set (filter (\<lambda>i. ?s ! i = CHR ''/'') [0..<length ?s])"
    by (simp add: nth_append)
  moreover have "take (length n) ?s = n" by simp
  ultimately have "n \<in> (\<lambda>i. take i ?s) ` set (filter (\<lambda>i. ?s ! i = CHR ''/'') [0..<length ?s])"
    by (metis (no_types, lifting) image_eqI)
  then show ?thesis unfolding slot_sources_def by (simp only: set_map)
qed

lemma edge_rank_bound:
  "e \<in> set es \<Longrightarrow> rank (edge_to e) < Suc (sum_list (map (\<lambda>e. rank (edge_to e)) es) + k)"
  by (induction es) auto

lemma node_rank_bound:
  "m \<in> set ms \<Longrightarrow>
   rank (base_id (node_base m)) < Suc (k + sum_list (map (\<lambda>m. rank (base_id (node_base m))) ms))"
  by (induction ms) auto

lemma sum_list_bound:
  "(\<And>x. x \<in> set xs \<Longrightarrow> f x \<le> c) \<Longrightarrow> sum_list (map f xs) \<le> length xs * (c::nat)"
proof (induction xs)
  case Nil
  then show ?case by simp
next
  case (Cons a xs)
  have "f a \<le> c" using Cons.prems by simp
  moreover have "sum_list (map f xs) \<le> length xs * c" using Cons by simp
  ultimately show ?case by simp
qed

lemma length_filter_remdups: "length (filter P (remdups xs)) \<le> length xs"
  by (meson le_trans length_filter_le length_remdups_leq)

lemma targets_weight:
  assumes "ranked rank flow" and "\<not> is_loop flow n"
      and "set es \<subseteq> set (outgoing flow n l)" and "length es \<le> length (flow_edges flow)"
  shows "sum_list (map (weight flow rank)
           (filter P (remdups (map edge_to (filter G es) @ joined flow (n @ ''/'' @ l)))))
         < weight flow rank n"
proof -
  define B where "B = length (flow_edges flow) + length (flow_nodes flow) + 2"
  define R where "R = Suc (sum_list (map (\<lambda>e. rank (edge_to e)) (flow_edges flow))
             + sum_list (map (\<lambda>m. rank (base_id (node_base m))) (flow_nodes flow)))"
  define ts where "ts = map edge_to (filter G es) @ joined flow (n @ ''/'' @ l)"
  define new where "new = filter P (remdups ts)"
  have w: "weight flow rank x = B ^ (R - rank x)" for x
    by (simp add: weight_def B_def R_def)
  have src: "n \<in> set (slot_sources (n @ ''/'' @ l))" by (rule source_of_slot)
  have higher: "rank n < rank t \<and> rank t < R" if "t \<in> set ts" for t
  proof -
    from that consider e where "e \<in> set es" "t = edge_to e"
      | "t \<in> set (joined flow (n @ ''/'' @ l))"
      unfolding ts_def by auto
    then show ?thesis
    proof cases
      case 1
      then have e: "e \<in> set (flow_edges flow)" "edge_from e = n @ ''/'' @ l"
        using assms(3) unfolding outgoing_def by auto
      then have "rises rank flow (n @ ''/'' @ l) t"
        using assms(1) 1(2) unfolding ranked_def list_all_iff by auto
      then have "rank n < rank t"
        using src assms(2) unfolding rises_def list_all_iff by blast
      moreover have "rank t < R"
        unfolding R_def 1(2) using e(1) by (rule edge_rank_bound)
      ultimately show ?thesis by simp
    next
      case 2
      then obtain m where m: "m \<in> set (flow_nodes flow)" "node_kind m = MergeNode"
          "n @ ''/'' @ l \<in> set (map input_from (declared_inputs m))" "t = base_id (node_base m)"
        unfolding joined_def by auto
      then obtain i where "i \<in> set (declared_inputs m)" "input_from i = n @ ''/'' @ l" by auto
      then have "rises rank flow (n @ ''/'' @ l) t"
        using assms(1) m(1,2,4) unfolding ranked_def list_all_iff by fastforce
      then have "rank n < rank t"
        using src assms(2) unfolding rises_def list_all_iff by blast
      moreover have "rank t < R"
        unfolding R_def m(4) using m(1) by (rule node_rank_bound)
      ultimately show ?thesis by simp
    qed
  qed
  show ?thesis
  proof (cases "new = []")
    case True
    then show ?thesis by (simp add: w B_def new_def ts_def)
  next
    case False
    then obtain t0 where "t0 \<in> set new" by (cases new) auto
    then have "t0 \<in> set ts" by (simp add: new_def)
    then have rn: "rank n < R" using higher [of t0] by simp
    have each: "weight flow rank t \<le> B ^ (R - rank n - 1)" if "t \<in> set new" for t
    proof -
      have "t \<in> set ts" using that unfolding new_def by simp
      then have "rank n < rank t" using higher [of t] by simp
      then have "R - rank t \<le> R - rank n - 1" by arith
      then show ?thesis unfolding w by (intro power_increasing) (simp_all add: B_def)
    qed
    have "length (joined flow (n @ ''/'' @ l)) \<le> length (flow_nodes flow)"
      by (simp add: joined_def)
    moreover have "length (map edge_to (filter G es)) \<le> length (flow_edges flow)"
      using assms(4) by (simp add: le_trans [OF length_filter_le])
    ultimately have "length ts \<le> length (flow_edges flow) + length (flow_nodes flow)"
      unfolding ts_def by simp
    then have "length new \<le> length (flow_edges flow) + length (flow_nodes flow)"
      unfolding new_def using length_filter_remdups [of P ts] by simp
    then have "sum_list (map (weight flow rank) new)
                 \<le> (length (flow_edges flow) + length (flow_nodes flow)) * B ^ (R - rank n - 1)"
      using sum_list_bound [of new "weight flow rank" "B ^ (R - rank n - 1)"] each
      by (meson le_trans mult_le_mono1)
    also have "\<dots> < B * B ^ (R - rank n - 1)"
      by (simp add: B_def)
    also have "\<dots> = B ^ (R - rank n)"
      using rn by (metis Suc_diff_Suc diff_Suc_eq_diff_pred power_Suc zero_less_diff diff_Suc_1 Suc_pred)
    finally show ?thesis by (simp add: w new_def ts_def)
  qed
qed

lemma weight_pos: "0 < weight flow rank n"
  by (simp add: weight_def)

lemma potential_pop:
  "fr_ready fr = n # rest \<Longrightarrow> potential rank (fr\<lparr>fr_ready := rest\<rparr>) < potential rank fr"
  using weight_pos [of "fr_flow fr" rank n] by (simp add: potential_def)

lemma potential_emit:
  assumes "fr_ready fr = n # rest" and "ranked rank (fr_flow fr)"
      and "\<not> is_loop (fr_flow fr) n"
  shows "potential rank (emit eng (fr\<lparr>fr_ready := rest\<rparr>) n l v turns) < potential rank fr"
proof -
  define ctx where "ctx = (fr_ctx fr)\<lparr>ctx_bindings := (n @ ''/'' @ l, v) # ctx_bindings (fr_ctx fr),
                              ctx_transcript := ctx_transcript (fr_ctx fr) @ turns\<rparr>"
  have "potential rank (emit eng (fr\<lparr>fr_ready := rest\<rparr>) n l v turns) =
          sum_list (map (weight (fr_flow fr) rank) rest)
          + sum_list (map (weight (fr_flow fr) rank)
              (filter (\<lambda>t. t \<notin> set rest \<and> becomes_ready (fr_flow fr) ctx t)
                 (remdups (map edge_to (filter (guard_true eng ctx) (outgoing (fr_flow fr) n l))
                           @ joined (fr_flow fr) (n @ ''/'' @ l)))))"
    by (simp add: potential_def emit_def emit_along_def Let_def ctx_def)
  also have "\<dots> < sum_list (map (weight (fr_flow fr) rank) rest) + weight (fr_flow fr) rank n"
    using targets_weight [OF assms(2,3), of "outgoing (fr_flow fr) n l" l]
    by (simp add: outgoing_def)
  also have "\<dots> = potential rank fr" using assms(1) by (simp add: potential_def)
  finally show ?thesis .
qed

lemma radix_power_pos: "0 < radix flow ^ d"
  by (simp add: radix_def)

lemma iterations_left_append:
  assumes "length its < d" and "budget flow n - c + 1 < radix flow"
  shows "iterations_left flow d (its @ [(n, c)]) < iterations_left flow d its"
  using assms(1)
proof (induction its arbitrary: d)
  case Nil
  define p where "p = radix flow ^ (d - 1)"
  define g where "g = budget flow n - c"
  have p: "0 < p" unfolding p_def by (rule radix_power_pos)
  have r: "radix flow ^ d = radix flow * p"
    using Nil unfolding p_def by (cases d) simp_all
  have "(g + 2) * p \<le> radix flow * p"
    using assms(2) unfolding g_def by (intro mult_le_mono1) simp
  then have "g * p + p + p \<le> radix flow * p" by (simp add: algebra_simps)
  then have "g * p + (p - 1) < radix flow * p - 1" using p by simp
  then show ?case by (simp add: r p_def g_def)
next
  case (Cons a its)
  obtain m k where a: "a = (m, k)" by (cases a)
  have "length its < d - 1" using Cons.prems by simp
  then show ?case using Cons.IH [of "d - 1"] a by simp
qed

lemma iterations_left_replace:
  assumes "budget flow n - c' < budget flow n - c"
  shows "iterations_left flow d (pre @ [(n, c')]) < iterations_left flow d (pre @ (n, c) # rest)"
proof (induction pre arbitrary: d)
  case Nil
  define p where "p = radix flow ^ (d - 1)"
  have p: "0 < p" unfolding p_def by (rule radix_power_pos)
  have "(budget flow n - c' + 1) * p \<le> (budget flow n - c) * p"
    using assms by (intro mult_le_mono1) simp
  then have "(budget flow n - c') * p + (p - 1) < (budget flow n - c) * p"
    using p by (simp add: algebra_simps)
  then show ?case by (simp add: p_def)
next
  case (Cons a pre)
  obtain m k where a: "a = (m, k)" by (cases a)
  show ?case using Cons.IH [of "d - 1"] a by simp
qed

lemma enclosing_present:
  "map_of its n = Some c \<Longrightarrow>
   \<exists>rest. its = takeWhile (\<lambda>(l, c). l \<noteq> n) its @ (n, c) # rest"
  by (induction its) (auto split: if_splits)

lemma enclosing_absent:
  "map_of its n = None \<Longrightarrow> takeWhile (\<lambda>(l, c). l \<noteq> n) its = its"
  by (induction its) (auto split: if_splits)

lemma budget_in_radix:
  assumes "find_node flow n = Some node"
  shows "budget flow n < radix flow - 1"
proof -
  have "node \<in> set (flow_nodes flow)" using assms by (rule find_node_member)
  moreover have "base_id (node_base node) = n" using assms by (rule find_node_id)
  ultimately have "budget flow n
      \<le> sum_list (map (\<lambda>m. budget flow (base_id (node_base m))) (flow_nodes flow))"
    using member_le_sum_list [of "budget flow n"
        "map (\<lambda>m. budget flow (base_id (node_base m))) (flow_nodes flow)"]
    by force
  then show ?thesis by (simp add: radix_def)
qed

lemma counters_length:
  assumes "distinct keys" and "list_all (\<lambda>k. find_node flow k \<noteq> None) keys"
      and "find_node flow n \<noteq> None" and "n \<notin> set keys"
  shows "length keys < length (flow_nodes flow)"
proof -
  have sub: "set (n # keys) \<subseteq> (\<lambda>m. base_id (node_base m)) ` set (flow_nodes flow)"
  proof
    fix k assume "k \<in> set (n # keys)"
    then have "find_node flow k \<noteq> None"
      using assms(2,3) by (auto simp: list_all_iff)
    then obtain node where f: "find_node flow k = Some node" by auto
    then show "k \<in> (\<lambda>m. base_id (node_base m)) ` set (flow_nodes flow)"
      using find_node_member [OF f] find_node_id [OF f] by force
  qed
  have "Suc (length keys) = card (set (n # keys))"
    using assms(1,4) distinct_card [of "n # keys"] by simp
  also have "\<dots> \<le> card ((\<lambda>m. base_id (node_base m)) ` set (flow_nodes flow))"
    using sub by (intro card_mono) simp_all
  also have "\<dots> \<le> card (set (flow_nodes flow))" by (intro card_image_le) simp
  also have "\<dots> \<le> length (flow_nodes flow)" by (rule card_length)
  finally show ?thesis by simp
qed

lemma loops_left_count:
  assumes "loops_ok fr" and "find_node (fr_flow fr) n = Some node"
      and "node_kind node = LoopNode (Some x) cond"
      and "iteration (fr_ctx fr) n < c'" and "c' \<le> Suc (nat \<lfloor>x\<rfloor>)"
  shows "loops_left (fr\<lparr>fr_ctx := count_iteration (fr_ctx fr) n c'\<rparr>) < loops_left fr"
proof -
  define its where "its = ctx_iterations (fr_ctx fr)"
  define d where "d = length (flow_nodes (fr_flow fr))"
  have b: "budget (fr_flow fr) n = Suc (nat \<lfloor>x\<rfloor>)"
    using assms(2,3) by (simp add: budget_def)
  have new: "loops_left (fr\<lparr>fr_ctx := count_iteration (fr_ctx fr) n c'\<rparr>) =
      iterations_left (fr_flow fr) d (takeWhile (\<lambda>(l, c). l \<noteq> n) its @ [(n, c')])"
    by (simp add: loops_left_def count_iteration_def enclosing_def its_def d_def)
  have old: "loops_left fr = iterations_left (fr_flow fr) d its"
    by (simp add: loops_left_def its_def d_def)
  show ?thesis
  proof (cases "map_of its n")
    case None
    then have tw: "takeWhile (\<lambda>(l, c). l \<noteq> n) its = its" by (rule enclosing_absent)
    have "n \<notin> set (map fst its)" using None by (simp add: map_of_eq_None_iff)
    then have "length (map fst its) < length (flow_nodes (fr_flow fr))"
      using assms(1,2) unfolding loops_ok_def its_def
      by (intro counters_length) simp_all
    then have len: "length its < d" by (simp add: d_def)
    have "0 < c'" using assms(4) by simp
    then have "budget (fr_flow fr) n - c' + 1 \<le> budget (fr_flow fr) n"
      using assms(5) b by simp
    then have "budget (fr_flow fr) n - c' + 1 < radix (fr_flow fr)"
      using budget_in_radix [OF assms(2)] by simp
    then show ?thesis
      using iterations_left_append [OF len] by (simp add: new old tw)
  next
    case (Some c)
    from enclosing_present [OF Some]
    obtain rest where r: "its = takeWhile (\<lambda>(l, c). l \<noteq> n) its @ (n, c) # rest"
      by auto
    have "iteration (fr_ctx fr) n = c" using Some by (simp add: iteration_def its_def)
    then have "budget (fr_flow fr) n - c' < budget (fr_flow fr) n - c"
      using assms(4,5) b by simp
    then have "iterations_left (fr_flow fr) d (takeWhile (\<lambda>(l, c). l \<noteq> n) its @ [(n, c')])
        < iterations_left (fr_flow fr) d (takeWhile (\<lambda>(l, c). l \<noteq> n) its @ (n, c) # rest)"
      by (rule iterations_left_replace)
    then show ?thesis using r by (simp add: new old)
  qed
qed

lemma loops_ok_count:
  assumes "loops_ok fr" and "find_node (fr_flow fr) n = Some node"
  shows "loops_ok (fr\<lparr>fr_ctx := count_iteration (fr_ctx fr) n c\<rparr>)"
proof -
  define its where "its = ctx_iterations (fr_ctx fr)"
  define pre where "pre = takeWhile (\<lambda>(l, c). l \<noteq> n) its"
  have "its = pre @ dropWhile (\<lambda>(l, c). l \<noteq> n) its" by (simp add: pre_def)
  then have "map fst its = map fst pre @ map fst (dropWhile (\<lambda>(l, c). l \<noteq> n) its)"
    by (metis map_append)
  then have "distinct (map fst pre)" "set (map fst pre) \<subseteq> set (map fst its)"
    using assms(1) unfolding loops_ok_def its_def
    by (metis distinct_append, metis Un_upper1 set_append)
  moreover have "n \<notin> set (map fst pre)"
    unfolding pre_def by (auto dest: set_takeWhileD)
  moreover have "list_all (\<lambda>k. find_node (fr_flow fr) k \<noteq> None) (map fst pre)"
    using assms(1) unfolding loops_ok_def its_def pre_def list_all_iff
    by (auto dest: set_takeWhileD)
  ultimately show ?thesis
    using assms(2) unfolding loops_ok_def count_iteration_def enclosing_def its_def pre_def
    by simp
qed

lemma emit_fields:
  "fr_flow (emit eng fr n l v turns) = fr_flow fr"
  "fr_caller (emit eng fr n l v turns) = fr_caller fr"
  "ctx_stack (fr_ctx (emit eng fr n l v turns)) = ctx_stack (fr_ctx fr)"
  "ctx_iterations (fr_ctx (emit eng fr n l v turns)) = ctx_iterations (fr_ctx fr)"
  "ctx_transcript (fr_ctx (emit eng fr n l v turns)) = ctx_transcript (fr_ctx fr) @ turns"
  by (simp_all add: emit_def emit_along_fields)

lemma loops_emit_along:
  "loops_left (emit_along eng fr n l v turns es) = loops_left fr"
  "loops_ok (emit_along eng fr n l v turns es) = loops_ok fr"
  by (simp_all add: loops_left_def loops_ok_def emit_along_fields)

lemma loops_popped:
  "loops_left (fr\<lparr>fr_ready := rest\<rparr>) = loops_left fr"
  "loops_ok (fr\<lparr>fr_ready := rest\<rparr>) = loops_ok fr"
  by (simp_all add: loops_left_def loops_ok_def)

lemma completes_ended: "ended (step eng (Running fr frs)) \<Longrightarrow> completes eng fr frs"
  unfolding completes_def by (rule exI [of _ "Suc 0"]) simp

lemma completes_return:
  "step eng (Running fr (p # ps)) = Running (emit eng p (fr_caller fr) l v turns) ps \<Longrightarrow>
   completes eng fr (p # ps)"
  unfolding completes_def by (rule exI [of _ "Suc 0"]) auto

lemma completes_step:
  assumes "step eng (Running fr frs) = Running fr' frs"
      and "fr_caller fr' = fr_caller fr" and "completes eng fr' frs"
  shows "completes eng fr frs"
proof -
  from assms(3) obtain n where
    "ended (steps n eng (Running fr' frs))
        \<or> (\<exists>p ps l v turns. frs = p # ps
              \<and> steps n eng (Running fr' frs) = Running (emit eng p (fr_caller fr') l v turns) ps)"
    unfolding completes_def by blast
  then have "ended (steps (Suc n) eng (Running fr frs))
        \<or> (\<exists>p ps l v turns. frs = p # ps
              \<and> steps (Suc n) eng (Running fr frs) = Running (emit eng p (fr_caller fr) l v turns) ps)"
    using assms(1,2) by simp
  then show ?thesis unfolding completes_def by blast
qed

lemma completes_call:
  assumes "step eng (Running fr frs) = Running c (popped # frs)"
      and "completes eng c (popped # frs)"
      and "\<And>l v turns. completes eng (emit eng popped (fr_caller c) l v turns) frs"
      and "fr_caller popped = fr_caller fr"
  shows "completes eng fr frs"
proof -
  from assms(2) obtain n1 where n1:
    "ended (steps n1 eng (Running c (popped # frs)))
       \<or> (\<exists>l v turns. steps n1 eng (Running c (popped # frs)) =
              Running (emit eng popped (fr_caller c) l v turns) frs)"
    unfolding completes_def by auto
  show ?thesis
  proof (cases "ended (steps n1 eng (Running c (popped # frs)))")
    case True
    then have "ended (steps (Suc n1) eng (Running fr frs))" using assms(1) by simp
    then show ?thesis unfolding completes_def by blast
  next
    case False
    then obtain l v turns where ret: "steps n1 eng (Running c (popped # frs)) =
              Running (emit eng popped (fr_caller c) l v turns) frs"
      using n1 by blast
    let ?fr = "emit eng popped (fr_caller c) l v turns"
    from assms(3) [of l v turns] obtain n2 where n2:
      "ended (steps n2 eng (Running ?fr frs))
        \<or> (\<exists>p ps l' v' turns'. frs = p # ps
              \<and> steps n2 eng (Running ?fr frs) =
                  Running (emit eng p (fr_caller ?fr) l' v' turns') ps)"
      unfolding completes_def by blast
    have "steps (Suc n1 + n2) eng (Running fr frs) = steps n2 eng (Running ?fr frs)"
      using assms(1) ret by (simp only: steps_add) simp
    moreover have "fr_caller ?fr = fr_caller fr" using assms(4) by (simp add: emit_fields)
    ultimately have "ended (steps (Suc n1 + n2) eng (Running fr frs))
        \<or> (\<exists>p ps l' v' turns'. frs = p # ps
              \<and> steps (Suc n1 + n2) eng (Running fr frs) =
                  Running (emit eng p (fr_caller fr) l' v' turns') ps)"
      using n2 by simp
    then show ?thesis unfolding completes_def by blast
  qed
qed

lemma frame_completes:
  assumes rk: "ranked rank flow"
      and calls: "\<And>target child ctx caller frs'.
          find_flow (eng_document eng) target = Some child \<Longrightarrow> target \<notin> set stack \<Longrightarrow>
          ctx_stack ctx = stack \<Longrightarrow> completes eng (child_frame target child ctx caller) frs'"
  shows "fr_flow fr = flow \<Longrightarrow> ctx_stack (fr_ctx fr) = stack \<Longrightarrow> loops_ok fr \<Longrightarrow>
         completes eng fr frs"
proof -
  have "wf (measures [loops_left, potential rank])" by simp
  then show "fr_flow fr = flow \<Longrightarrow> ctx_stack (fr_ctx fr) = stack \<Longrightarrow> loops_ok fr \<Longrightarrow>
         completes eng fr frs"
  proof (induction fr rule: wf_induct_rule)
    case (less fr)
    note fl = less.prems(1) and st = less.prems(2) and lo = less.prems(3)
    have fewer: "completes eng y frs"
      if "loops_left y < loops_left fr" "fr_flow y = flow" "ctx_stack (fr_ctx y) = stack"
         "loops_ok y" for y
      using less.IH [of y] that by simp
    have lighter: "completes eng y frs"
      if "loops_left y = loops_left fr" "potential rank y < potential rank fr"
         "fr_flow y = flow" "ctx_stack (fr_ctx y) = stack" "loops_ok y" for y
      using less.IH [of y] that by simp
    show ?case
    proof (cases "fr_ready fr")
      case Nil
      then show ?thesis by (intro completes_ended) (simp add: step_def)
    next
      case (Cons n rest)
      let ?popped = "fr\<lparr>fr_ready := rest\<rparr>"
      have pop_done: "completes eng ?popped frs"
        using potential_pop [OF Cons, of rank] fl st lo
        by (intro lighter) (simp_all add: loops_popped)
      show ?thesis
      proof (cases "find_node (fr_flow fr) n")
        case None
        then show ?thesis using Cons by (intro completes_ended) (simp add: step_def)
      next
        case (Some node)
        have emit_done: "completes eng (emit eng ?popped n l v turns) frs"
          if "kind_type (node_kind node) \<noteq> TLoop" for l v turns
        proof -
          have "\<not> is_loop (fr_flow fr) n" using that Some by (simp add: is_loop_def)
          then have "potential rank (emit eng ?popped n l v turns) < potential rank fr"
            using potential_emit [OF Cons, of rank eng] rk fl by simp
          then show ?thesis
            using fl st lo
            by (intro lighter)
               (simp_all add: emit_def emit_along_fields loops_emit_along loops_popped)
        qed
        have leaf: "completes eng fr frs"
          if s: "step eng (Running fr frs) =
                  (case eng_handler eng node (eng_task eng) (fr_ctx fr) of
                     Inl failure \<Rightarrow> Failed failure (ctx_transcript (fr_ctx fr))
                   | Inr (label, v, turns) \<Rightarrow> Running (emit eng ?popped n label v turns) frs)"
            and k: "kind_type (node_kind node) \<noteq> TLoop"
        proof (cases "eng_handler eng node (eng_task eng) (fr_ctx fr)")
          case (Inl failure)
          then show ?thesis using s by (intro completes_ended) simp
        next
          case (Inr result)
          obtain label v turns where "result = (label, v, turns)" by (cases result)
          then have "step eng (Running fr frs) = Running (emit eng ?popped n label v turns) frs"
            using s Inr by simp
          then show ?thesis
            by (rule completes_step) (simp_all add: emit_fields emit_done k)
        qed
        show ?thesis
        proof (cases "node_kind node")
          case OutputNode
          then have s: "step eng (Running fr frs) = output_handler eng ?popped frs node"
            using Cons Some by (simp add: step_def Let_def)
          show ?thesis
          proof (cases "satisfied (fr_ctx fr) node")
            case False
            then have "step eng (Running fr frs) = Running ?popped frs"
              using s by (simp add: output_handler_def)
            then show ?thesis by (rule completes_step) (simp_all add: pop_done)
          next
            case True
            show ?thesis
            proof (cases frs)
              case Nil
              then show ?thesis using s True
                by (intro completes_ended) (simp add: output_handler_def Let_def)
            next
              case (Cons p ps)
              show ?thesis
              proof (cases "find_node (fr_flow p) (fr_caller fr)")
                case None
                then show ?thesis using s True Cons
                  by (intro completes_ended) (simp add: output_handler_def Let_def)
              next
                case (Some caller)
                then have "step eng (Running fr (p # ps)) =
                    Running (emit eng p (fr_caller fr) (sole_output caller)
                      (Collection (incoming_values (fr_flow fr) (fr_ctx fr)
                         (base_id (node_base node))))
                      (drop (length (ctx_transcript (fr_ctx p))) (ctx_transcript (fr_ctx fr)))) ps"
                  using s True Cons by (simp add: output_handler_def Let_def)
                then show ?thesis unfolding Cons by (rule completes_return)
              qed
            qed
          qed
        next
          case MergeNode
          then have s: "step eng (Running fr frs) = Running (merge_handler eng ?popped node) frs"
            using Cons Some by (simp add: step_def Let_def)
          have id: "base_id (node_base node) = n" using Some by (rule find_node_id)
          have "completes eng (merge_handler eng ?popped node) frs"
            using pop_done emit_done id MergeNode by (simp add: merge_handler_def)
          moreover have "fr_caller (merge_handler eng ?popped node) = fr_caller fr"
            by (simp add: merge_handler_def emit_fields)
          ultimately show ?thesis using s by (intro completes_step [OF s]) simp_all
        next
          case (SubflowNode target)
          then have s: "step eng (Running fr frs) = subflow_handler eng ?popped frs n target"
            using Cons Some by (simp add: step_def Let_def)
          show ?thesis
          proof (cases "target \<in> set stack")
            case True
            then show ?thesis using s st by (intro completes_ended) (simp add: subflow_handler_def)
          next
            case False
            show ?thesis
            proof (cases "find_flow (eng_document eng) target")
              case None
              then show ?thesis using s st False
                by (intro completes_ended) (simp add: subflow_handler_def)
            next
              case (Some child)
              let ?c = "child_frame target child (fr_ctx fr) n"
              have "step eng (Running fr frs) = Running ?c (?popped # frs)"
                using s st False Some by (simp add: subflow_handler_def)
              moreover have "completes eng ?c (?popped # frs)"
                using calls [OF Some False] st by simp
              moreover have "completes eng (emit eng ?popped (fr_caller ?c) l v turns) frs"
                for l v turns
                using emit_done [of l v turns] SubflowNode by (simp add: child_frame_def)
              ultimately show ?thesis by (rule completes_call) simp
            qed
          qed
        next
          case (LoopNode mx cond)
          show ?thesis
          proof (cases mx)
            case None
            then show ?thesis using Cons Some LoopNode
              by (intro completes_ended) (simp add: step_def Let_def)
          next
            case (Some x)
            define limit where "limit = nat \<lfloor>x\<rfloor>"
            have k: "node_kind node = LoopNode (Some x) cond" using LoopNode Some by simp
            have id: "base_id (node_base node) = n" using \<open>find_node (fr_flow fr) n = Some node\<close>
              by (rule find_node_id)
            have s: "step eng (Running fr frs) = Running (loop_handler eng ?popped node limit) frs"
              using Cons \<open>find_node (fr_flow fr) n = Some node\<close> k
              by (simp add: step_def Let_def limit_def)
            have counted: "completes eng
                (emit_along eng (?popped\<lparr>fr_ctx := count_iteration (fr_ctx ?popped) n c\<rparr>)
                   n l v turns es) frs"
              if "iteration (fr_ctx fr) n < c" "c \<le> Suc limit" for c l v turns es
            proof (rule fewer)
              have "loops_left (fr\<lparr>fr_ctx := count_iteration (fr_ctx fr) n c\<rparr>) < loops_left fr"
                using lo \<open>find_node (fr_flow fr) n = Some node\<close> k that
                unfolding limit_def by (rule loops_left_count)
              then show "loops_left
                  (emit_along eng (?popped\<lparr>fr_ctx := count_iteration (fr_ctx ?popped) n c\<rparr>)
                     n l v turns es) < loops_left fr"
                unfolding loops_emit_along by (simp add: loops_left_def)
              have "loops_ok (fr\<lparr>fr_ctx := count_iteration (fr_ctx fr) n c\<rparr>)"
                using lo \<open>find_node (fr_flow fr) n = Some node\<close> by (rule loops_ok_count)
              then show "loops_ok
                  (emit_along eng (?popped\<lparr>fr_ctx := count_iteration (fr_ctx ?popped) n c\<rparr>)
                     n l v turns es)"
                unfolding loops_emit_along by (simp add: loops_ok_def)
            qed (simp_all add: emit_along_fields count_iteration_fields fl st)
            have "completes eng (loop_handler eng ?popped node limit) frs"
              using pop_done counted id
              by (simp add: loop_handler_def Let_def)
            moreover have "fr_caller (loop_handler eng ?popped node limit) = fr_caller fr"
              by (simp add: loop_handler_def Let_def emit_along_fields)
            ultimately show ?thesis by (intro completes_step [OF s]) simp_all
          qed
        next
          case InputNode
          then show ?thesis using Cons Some by (intro leaf) (simp_all add: step_def Let_def)
        next
          case (AgentNode a b c d)
          then show ?thesis using Cons Some by (intro leaf) (simp_all add: step_def Let_def)
        next
          case (DecisionNode a b)
          then show ?thesis using Cons Some by (intro leaf) (simp_all add: step_def Let_def)
        next
          case (ToolNode a)
          then show ?thesis using Cons Some by (intro leaf) (simp_all add: step_def Let_def)
        next
          case (ParallelNode a)
          then show ?thesis using Cons Some by (intro leaf) (simp_all add: step_def Let_def)
        qed
      qed
    qed
  qed
qed

lemma find_flow_member: "find_flow doc f = Some flow \<Longrightarrow> flow \<in> set (doc_flows doc)"
  by (auto simp: find_flow_def find_Some_iff)

lemma stack_length:
  assumes "distinct stack" and "set stack \<subseteq> flow_id ` set (doc_flows doc)"
  shows "length stack \<le> length (doc_flows doc)"
proof -
  have "length stack = card (set stack)" using assms(1) by (simp add: distinct_card)
  also have "\<dots> \<le> card (flow_id ` set (doc_flows doc))"
    using assms(2) by (intro card_mono) simp_all
  also have "\<dots> \<le> card (set (doc_flows doc))" by (intro card_image_le) simp
  also have "\<dots> \<le> length (doc_flows doc)" by (rule card_length)
  finally show ?thesis .
qed

lemma invocation_completes:
  assumes "valid_document (eng_document eng)"
  shows "distinct stack \<Longrightarrow> set stack \<subseteq> flow_id ` set (doc_flows (eng_document eng)) \<Longrightarrow>
         fr_flow fr \<in> set (doc_flows (eng_document eng)) \<Longrightarrow>
         ctx_stack (fr_ctx fr) = stack \<Longrightarrow> loops_ok fr \<Longrightarrow> completes eng fr frs"
proof (induction "length (doc_flows (eng_document eng)) - length stack"
       arbitrary: stack fr frs rule: less_induct)
  case less
  let ?doc = "eng_document eng"
  from assms less.prems(3) obtain rank where rk: "ranked rank (fr_flow fr)"
    unfolding valid_document_def acyclic_flow_def list_all_iff by blast
  have calls: "completes eng (child_frame target child ctx caller) frs'"
    if c: "find_flow ?doc target = Some child" and new: "target \<notin> set stack"
      and "ctx_stack ctx = stack"
    for target child ctx caller frs'
  proof -
    have mem: "child \<in> set (doc_flows ?doc)" using c by (rule find_flow_member)
    have "flow_id child = target" using c by (rule find_flow_id)
    then have sub: "set (target # stack) \<subseteq> flow_id ` set (doc_flows ?doc)"
      using mem less.prems(2) by auto
    have dis: "distinct (target # stack)" using new less.prems(1) by simp
    have "length (target # stack) \<le> length (doc_flows ?doc)"
      using dis sub by (rule stack_length)
    then have "length (doc_flows ?doc) - length (target # stack)
                 < length (doc_flows ?doc) - length stack"
      by simp
    then show ?thesis
      using less.hyps [of "target # stack" "child_frame target child ctx caller" frs']
        dis sub mem that(3)
      by (simp add: child_frame_def loops_ok_def)
  qed
  show ?case
  proof (rule frame_completes [OF rk, where stack = stack])
    show "fr_flow fr = fr_flow fr" by simp
    show "ctx_stack (fr_ctx fr) = stack" by (rule less.prems(4))
    show "loops_ok fr" by (rule less.prems(5))
  qed (rule calls)
qed

lemma run_ends:
  assumes "valid_document (eng_document eng)"
  shows "\<exists>n. ended (steps n eng (start eng flowId))"
proof (cases "find_flow (eng_document eng) flowId")
  case None
  then have "ended (steps 0 eng (start eng flowId))" by (simp add: start_def)
  then show ?thesis by blast
next
  case (Some flow)
  let ?fr = "\<lparr>fr_flow = flow,
                   fr_ctx = \<lparr>ctx_transcript = [], ctx_bindings = [],
                             ctx_stack = [flowId], ctx_iterations = []\<rparr>,
                   fr_ready = [flow_entry flow], fr_events = [], fr_caller = []\<rparr>"
  have s: "start eng flowId = Running ?fr []" using Some by (simp add: start_def)
  have "flow_id flow = flowId" using Some by (rule find_flow_id)
  moreover have "flow \<in> set (doc_flows (eng_document eng))" using Some by (rule find_flow_member)
  ultimately have "completes eng ?fr []"
    using invocation_completes [OF assms, of "[flowId]" ?fr "[]"] by (auto simp: loops_ok_def)
  then show ?thesis unfolding completes_def s by simp
qed

lemma begins_with_refl: "begins_with xs xs"
  by (simp add: begins_with_def)

lemma begins_with_length: "begins_with xs ys \<Longrightarrow> length ys \<le> length xs"
  unfolding begins_with_def by (metis length_take min.cobounded1)

lemma begins_with_append: "begins_with xs ys \<Longrightarrow> begins_with (xs @ zs) ys"
  using begins_with_length [of xs ys] by (simp add: begins_with_def)

lemma begins_with_trans: "begins_with xs ys \<Longrightarrow> begins_with ys zs \<Longrightarrow> begins_with xs zs"
proof -
  assume a: "begins_with xs ys" and b: "begins_with ys zs"
  have "length zs \<le> length ys" using b by (rule begins_with_length)
  then have "take (length zs) xs = take (length zs) (take (length ys) xs)"
    by (simp add: min.absorb1)
  then show ?thesis using a b unfolding begins_with_def by simp
qed

lemma begins_with_rest: "begins_with xs ys \<Longrightarrow> ys @ drop (length ys) xs = xs"
  unfolding begins_with_def by (metis append_take_drop_id)

lemma scripts_ok_extend:
  "scripts_ok fr frs \<Longrightarrow>
   begins_with (ctx_transcript (fr_ctx fr')) (ctx_transcript (fr_ctx fr)) \<Longrightarrow>
   scripts_ok fr' frs"
  by (cases frs) (auto intro: begins_with_trans)

lemma begins_with_more: "begins_with (xs @ zs) xs"
  by (simp add: begins_with_def)

lemma scripts_emit_along:
  assumes "scripts_ok fr frs"
  shows "scripts_ok (emit_along eng fr n l v turns es) frs"
  using scripts_ok_extend [OF assms, of "emit_along eng fr n l v turns es"]
  by (simp add: emit_along_fields begins_with_more)

lemma scripts_popped:
  assumes "scripts_ok fr frs"
  shows "scripts_ok (fr\<lparr>fr_ready := rest\<rparr>) frs"
  using scripts_ok_extend [OF assms, of "fr\<lparr>fr_ready := rest\<rparr>"]
  by (simp add: begins_with_refl)

text \<open>
  The transcript is append-only across a whole run: a step keeps the transcript of the
  state before it as the beginning of the transcript after it, also when it enters or
  leaves a nested invocation or ends the run.
\<close>

lemma transcript_step:
  assumes "case run of Running fr frs \<Rightarrow> scripts_ok fr frs | other \<Rightarrow> True"
  shows "(case step eng run of Running fr frs \<Rightarrow> scripts_ok fr frs | other \<Rightarrow> True)
         \<and> begins_with (run_transcript (step eng run)) (run_transcript run)"
proof (cases run)
  case (Running fr frs)
  then have ok: "scripts_ok fr frs" using assms by simp
  show ?thesis
  proof (cases "fr_ready fr")
    case Nil
    then show ?thesis using Running by (simp add: step_def begins_with_refl)
  next
    case (Cons n rest)
    let ?popped = "fr\<lparr>fr_ready := rest\<rparr>"
    have okp: "scripts_ok ?popped frs" using ok by (rule scripts_popped)
    show ?thesis
    proof (cases "find_node (fr_flow fr) n")
      case None
      then show ?thesis using Running Cons by (simp add: step_def begins_with_refl)
    next
      case (Some node)
      have emitted: "scripts_ok (emit_along eng ?popped n l v turns es) frs
          \<and> begins_with (ctx_transcript (fr_ctx (emit_along eng ?popped n l v turns es)))
              (ctx_transcript (fr_ctx fr))" for l v turns es
        using scripts_emit_along [OF okp]
        by (simp add: emit_along_fields begins_with_more)
      have leaf: ?thesis
        if "step eng run =
              (case eng_handler eng node (eng_task eng) (fr_ctx fr) of
                 Inl failure \<Rightarrow> Failed failure (ctx_transcript (fr_ctx fr))
               | Inr (label, v, turns) \<Rightarrow> Running (emit eng ?popped n label v turns) frs)"
        using that Running emitted
        by (auto simp: emit_def begins_with_refl split: sum.splits)
      show ?thesis
      proof (cases "node_kind node")
        case OutputNode
        then have s: "step eng run = output_handler eng ?popped frs node"
          using Running Cons Some by (simp add: step_def Let_def)
        show ?thesis
        proof (cases "satisfied (fr_ctx fr) node")
          case False
          then show ?thesis using s okp Running by (simp add: output_handler_def begins_with_refl)
        next
          case True
          show ?thesis
          proof (cases frs)
            case Nil
            then show ?thesis using s True Running
              by (simp add: output_handler_def Let_def begins_with_refl)
          next
            case (Cons p ps)
            show ?thesis
            proof (cases "find_node (fr_flow p) (fr_caller fr)")
              case None
              then show ?thesis using s True Cons Running
                by (simp add: output_handler_def Let_def begins_with_refl)
            next
              case (Some caller)
              let ?turns = "drop (length (ctx_transcript (fr_ctx p))) (ctx_transcript (fr_ctx fr))"
              have b: "begins_with (ctx_transcript (fr_ctx fr)) (ctx_transcript (fr_ctx p))"
                  and okps: "scripts_ok p ps"
                using ok Cons by simp_all
              have whole: "ctx_transcript (fr_ctx p) @ ?turns = ctx_transcript (fr_ctx fr)"
                using b by (rule begins_with_rest)
              have st: "step eng run = Running (emit eng p (fr_caller fr) (sole_output caller)
                  (Collection (incoming_values (fr_flow fr) (fr_ctx fr) (base_id (node_base node))))
                  ?turns) ps"
                using s True Cons Some by (simp add: output_handler_def Let_def)
              have "scripts_ok (emit eng p (fr_caller fr) l v ?turns) ps" for l v
                unfolding emit_def using okps by (rule scripts_emit_along)
              moreover have "ctx_transcript (fr_ctx (emit eng p (fr_caller fr) l v ?turns))
                  = ctx_transcript (fr_ctx fr)" for l v
                by (simp add: emit_fields whole)
              ultimately show ?thesis using st Running by (simp add: begins_with_refl)
            qed
          qed
        qed
      next
        case MergeNode
        then have "step eng run = Running (merge_handler eng ?popped node) frs"
          using Running Cons Some by (simp add: step_def Let_def)
        then show ?thesis using emitted okp Running find_node_id [OF Some]
          by (simp add: merge_handler_def emit_def begins_with_refl)
      next
        case (SubflowNode target)
        then have "step eng run = subflow_handler eng ?popped frs n target"
          using Running Cons Some by (simp add: step_def Let_def)
        then show ?thesis using okp Running
          by (simp add: subflow_handler_def child_frame_def begins_with_refl split: option.splits)
      next
        case (LoopNode mx cond)
        have "scripts_ok (loop_handler eng ?popped node limit) frs
            \<and> begins_with (ctx_transcript (fr_ctx (loop_handler eng ?popped node limit)))
                (ctx_transcript (fr_ctx fr))" for limit
        proof -
          have "scripts_ok (?popped\<lparr>fr_ctx := count_iteration (fr_ctx ?popped) k c\<rparr>) frs" for k c
            using scripts_ok_extend [OF okp,
                of "?popped\<lparr>fr_ctx := count_iteration (fr_ctx ?popped) k c\<rparr>"]
            by (simp add: count_iteration_fields begins_with_refl)
          then have "scripts_ok
              (emit_along eng (?popped\<lparr>fr_ctx := count_iteration (fr_ctx ?popped) k c\<rparr>)
                 k l v [] es) frs" for k c l v es
            by (rule scripts_emit_along)
          then show ?thesis using okp
            by (simp add: loop_handler_def Let_def emit_along_fields count_iteration_fields
                begins_with_refl)
        qed
        then show ?thesis using Running Cons Some LoopNode
          by (simp add: step_def Let_def begins_with_refl split: option.splits)
      next
        case InputNode
        then show ?thesis using Running Cons Some by (intro leaf) (simp add: step_def Let_def)
      next
        case (AgentNode a b c d)
        then show ?thesis using Running Cons Some by (intro leaf) (simp add: step_def Let_def)
      next
        case (DecisionNode a b)
        then show ?thesis using Running Cons Some by (intro leaf) (simp add: step_def Let_def)
      next
        case (ToolNode a)
        then show ?thesis using Running Cons Some by (intro leaf) (simp add: step_def Let_def)
      next
        case (ParallelNode a)
        then show ?thesis using Running Cons Some by (intro leaf) (simp add: step_def Let_def)
      qed
    qed
  qed
qed (simp_all add: step_def begins_with_refl)

lemma transcript_steps:
  assumes "case run of Running fr frs \<Rightarrow> scripts_ok fr frs | other \<Rightarrow> True"
  shows "(case steps n eng run of Running fr frs \<Rightarrow> scripts_ok fr frs | other \<Rightarrow> True)
         \<and> begins_with (run_transcript (steps n eng run)) (run_transcript run)"
  using assms
proof (induction n arbitrary: run)
  case 0
  then show ?case by (simp add: begins_with_refl)
next
  case (Suc n)
  from transcript_step [OF Suc.prems, of eng]
  have a: "case step eng run of Running fr frs \<Rightarrow> scripts_ok fr frs | other \<Rightarrow> True"
    and b: "begins_with (run_transcript (step eng run)) (run_transcript run)"
    by simp_all
  from Suc.IH [OF a] b show ?case by (auto intro: begins_with_trans)
qed

lemma transcript_kept:
  "begins_with (run_transcript (steps (k + j) eng (start eng flowId)))
     (run_transcript (steps k eng (start eng flowId)))"
proof -
  have s: "case start eng flowId of Running fr frs \<Rightarrow> scripts_ok fr frs | other \<Rightarrow> True"
    by (simp add: start_def split: option.splits)
  have "case steps k eng (start eng flowId) of Running fr frs \<Rightarrow> scripts_ok fr frs | other \<Rightarrow> True"
    using transcript_steps [OF s] by simp
  then show ?thesis using transcript_steps [of "steps k eng (start eng flowId)" j eng]
    by (simp add: steps_add)
qed

lemma steps_same_end:
  assumes "ended (steps a eng run)" and "ended (steps b eng run)"
  shows "steps a eng run = steps b eng run"
proof -
  have le: "steps y eng run = steps x eng run" if "x \<le> y" "ended (steps x eng run)" for x y
  proof -
    have "steps y eng run = steps (x + (y - x)) eng run" using that(1) by simp
    also have "\<dots> = steps (y - x) eng (steps x eng run)" by (rule steps_add)
    also have "\<dots> = steps x eng run" using that(2) by (rule steps_ended)
    finally show ?thesis .
  qed
  show ?thesis
  proof (cases "a \<le> b")
    case True
    then show ?thesis using le [of a b] assms(1) by simp
  next
    case False
    then show ?thesis using le [of b a] assms(2) by simp
  qed
qed

lemma step_Finished:
  assumes "step eng run = Finished v t" and "\<not> ended run"
  shows "output_reached run v t"
proof -
  from assms(2) obtain fr frs where r: "run = Running fr frs" by (cases run) simp_all
  show ?thesis
  proof (cases "fr_ready fr")
    case Nil
    then show ?thesis using assms(1) r by (simp add: step_def)
  next
    case (Cons n rest)
    show ?thesis
    proof (cases "find_node (fr_flow fr) n")
      case None
      then show ?thesis using assms(1) r Cons by (simp add: step_def)
    next
      case (Some node)
      have id: "base_id (node_base node) = n" using Some by (rule find_node_id)
      show ?thesis
      proof (cases "node_kind node")
        case OutputNode
        then have "output_handler eng (fr\<lparr>fr_ready := rest\<rparr>) frs node = Finished v t"
          using assms(1) r Cons Some by (simp add: step_def Let_def)
        then show ?thesis
          using r Cons Some OutputNode id
          by (auto simp: output_handler_def output_reached_def Let_def
                   split: if_splits list.splits option.splits)
      next
        case MergeNode
        then show ?thesis using assms(1) r Cons Some by (simp add: step_def Let_def)
      next
        case (SubflowNode target)
        then show ?thesis using assms(1) r Cons Some
          by (auto simp: step_def Let_def subflow_handler_def split: if_splits option.splits)
      next
        case (LoopNode mx cond)
        then show ?thesis using assms(1) r Cons Some
          by (auto simp: step_def Let_def split: option.splits)
      qed (use assms(1) r Cons Some in \<open>auto simp: step_def Let_def split: sum.splits\<close>)
    qed
  qed
qed

lemma output_reached_step:
  "output_reached run v t \<Longrightarrow> step eng run = Finished v t"
  by (auto simp: output_reached_def step_def Let_def output_handler_def dest: find_node_id
           split: Run.splits list.splits option.splits)

lemma Finished_first:
  assumes "steps n eng run = Finished v t" and "\<not> ended run"
  shows "\<exists>k<n. output_reached (steps k eng run) v t"
  using assms
proof (induction n)
  case 0
  then show ?case by simp
next
  case (Suc n)
  have s: "step eng (steps n eng run) = Finished v t"
    using Suc.prems(1) by (simp only: steps_Suc_right)
  show ?case
  proof (cases "ended (steps n eng run)")
    case True
    then have "steps n eng run = Finished v t" using s by (simp add: step_ended)
    then show ?thesis using Suc.IH Suc.prems(2) less_Suc_eq by blast
  next
    case False
    then have "output_reached (steps n eng run) v t" using s by (intro step_Finished)
    then show ?thesis by blast
  qed
qed

lemma output_reached_once:
  assumes "output_reached (steps k eng run) v t" and "output_reached (steps k' eng run) v' t'"
  shows "k = k'"
proof -
  have no: False if "x < y" "output_reached (steps x eng run) a b"
      "output_reached (steps y eng run) c d" for x y a b c d
  proof -
    have "steps (Suc x) eng run = Finished a b"
      using that(2) by (simp only: steps_Suc_right output_reached_step)
    then have e: "ended (steps (Suc x) eng run)" by simp
    have "steps y eng run = steps (Suc x + (y - Suc x)) eng run" using that(1) by simp
    also have "\<dots> = steps (y - Suc x) eng (steps (Suc x) eng run)" by (rule steps_add)
    also have "\<dots> = steps (Suc x) eng run" using e by (rule steps_ended)
    finally have "ended (steps y eng run)" using e by simp
    then show False using that(3) by (cases "steps y eng run") (simp_all add: output_reached_def)
  qed
  show ?thesis using no [of k k'] no [of k' k] assms by (meson nat_neq_iff)
qed

lemma outer_flow_ranked: "ranked outer_rank outer_flow"
  by code_simp

lemma loop_flow_ranked: "ranked loop_rank loop_flow"
  by code_simp

lemma outer_run_finished:
  "steps 12 (sample_engine [outer_flow, loop_flow]) (start (sample_engine [outer_flow, loop_flow]) ''O'')
     = Finished (Collection [Collection [Collection [Text ''hello'', Text ''hello'']]])
         [\<lparr>turn_node = ''b'', turn_text = ''hello''\<rparr>, \<lparr>turn_node = ''b'', turn_text = ''hello''\<rparr>,
          \<lparr>turn_node = ''b'', turn_text = ''hello''\<rparr>]"
  by code_simp

text \<open>
  Claim C1. For every document whose flows are valid, every task input, and every
  behaviour of the handlers that call collaborators, the run of a flow ends, and in
  exactly one of two ways: with a value and the transcript, or with a typed failure;
  never both and never neither. A run that ends with a value and a transcript has
  reached, at an earlier step, an Output node of the started flow with all its inputs
  satisfied, whose incoming values and transcript are that outcome, and it is at such an
  Output node at no other step. The transcript is the full one: it begins with the
  transcript of the run at each of its steps, those of the nested invocations included.
\<close>

theorem run_one_output_or_failure:
  assumes "valid_document (eng_document eng)"
  shows "((\<exists>n v t. steps n eng (start eng flowId) = Finished v t)
            \<noteq> (\<exists>n f t. steps n eng (start eng flowId) = Failed f t))
         \<and> (\<forall>n v t. steps n eng (start eng flowId) = Finished v t \<longrightarrow>
               (\<exists>k<n. output_reached (steps k eng (start eng flowId)) v t
                      \<and> (\<forall>k' v' t'. output_reached (steps k' eng (start eng flowId)) v' t'
                            \<longrightarrow> k' = k))
               \<and> (\<forall>k. begins_with t (run_transcript (steps k eng (start eng flowId)))))"
proof (intro conjI allI impI)
  from run_ends [OF assms] obtain n where e: "ended (steps n eng (start eng flowId))" by blast
  have some: "(\<exists>n v t. steps n eng (start eng flowId) = Finished v t)
      \<or> (\<exists>n f t. steps n eng (start eng flowId) = Failed f t)"
    using e by (cases "steps n eng (start eng flowId)") auto
  have notboth: False
    if "steps a eng (start eng flowId) = Finished v t"
       "steps b eng (start eng flowId) = Failed f t'" for a b v t f t'
  proof -
    have "steps a eng (start eng flowId) = steps b eng (start eng flowId)"
      by (rule steps_same_end) (simp_all add: that)
    then show False using that by simp
  qed
  show "(\<exists>n v t. steps n eng (start eng flowId) = Finished v t)
      \<noteq> (\<exists>n f t. steps n eng (start eng flowId) = Failed f t)"
    using some notboth by blast
next
  fix n v t
  assume fin: "steps n eng (start eng flowId) = Finished v t"
  have ne: "\<not> ended (start eng flowId)"
  proof
    assume "ended (start eng flowId)"
    then have "steps n eng (start eng flowId) = start eng flowId" by (rule steps_ended)
    then show False using fin by (simp add: start_def split: option.splits)
  qed
  show "\<exists>k<n. output_reached (steps k eng (start eng flowId)) v t
          \<and> (\<forall>k' v' t'. output_reached (steps k' eng (start eng flowId)) v' t' \<longrightarrow> k' = k)"
  proof -
    from Finished_first [OF fin ne] obtain k where
      k: "k < n" "output_reached (steps k eng (start eng flowId)) v t" by blast
    have "\<forall>k' v' t'. output_reached (steps k' eng (start eng flowId)) v' t' \<longrightarrow> k' = k"
      using output_reached_once [OF k(2)] by blast
    then show ?thesis using k by blast
  qed
  show "begins_with t (run_transcript (steps k eng (start eng flowId)))" for k
  proof (cases "k \<le> n")
    case True
    then have "begins_with (run_transcript (steps n eng (start eng flowId)))
        (run_transcript (steps k eng (start eng flowId)))"
      using transcript_kept [of k "n - k" eng flowId] by simp
    then show ?thesis by (simp add: fin)
  next
    case False
    have "steps k eng (start eng flowId) = steps (n + (k - n)) eng (start eng flowId)"
      using False by simp
    also have "\<dots> = steps (k - n) eng (steps n eng (start eng flowId))" by (rule steps_add)
    also have "\<dots> = Finished v t" using fin by (simp add: steps_ended)
    finally show ?thesis by (simp add: begins_with_refl)
  qed
qed

text \<open>
  The flow \<open>O\<close> invokes the flow \<open>L\<close>, whose loop runs the agent \<open>b\<close> three times;
  the run of \<open>O\<close> ends at its twelfth step, at the Output node of \<open>O\<close>, with the three
  turns of the nested invocation in its transcript.
\<close>

theorem run_one_output_or_failure_witness:
  "valid_document (eng_document (sample_engine [outer_flow, loop_flow]))
   \<and> steps 12 (sample_engine [outer_flow, loop_flow])
         (start (sample_engine [outer_flow, loop_flow]) ''O'')
       = Finished (Collection [Collection [Collection [Text ''hello'', Text ''hello'']]])
           [\<lparr>turn_node = ''b'', turn_text = ''hello''\<rparr>, \<lparr>turn_node = ''b'', turn_text = ''hello''\<rparr>,
            \<lparr>turn_node = ''b'', turn_text = ''hello''\<rparr>]
   \<and> (\<exists>k<12. output_reached
          (steps k (sample_engine [outer_flow, loop_flow])
             (start (sample_engine [outer_flow, loop_flow]) ''O''))
          (Collection [Collection [Collection [Text ''hello'', Text ''hello'']]])
          [\<lparr>turn_node = ''b'', turn_text = ''hello''\<rparr>, \<lparr>turn_node = ''b'', turn_text = ''hello''\<rparr>,
           \<lparr>turn_node = ''b'', turn_text = ''hello''\<rparr>])
   \<and> (\<exists>n v t. steps n (sample_engine [outer_flow, loop_flow])
          (start (sample_engine [outer_flow, loop_flow]) ''O'') = Finished v t)
       \<noteq> (\<exists>n f t. steps n (sample_engine [outer_flow, loop_flow])
          (start (sample_engine [outer_flow, loop_flow]) ''O'') = Failed f t)"
proof -
  have "acyclic_flow outer_flow" "acyclic_flow loop_flow"
    unfolding acyclic_flow_def using outer_flow_ranked loop_flow_ranked by blast+
  then have v: "valid_document (eng_document (sample_engine [outer_flow, loop_flow]))"
    by (simp add: valid_document_def sample_engine_def)
  note outcome = run_one_output_or_failure [OF v, of "''O''"]
  from conjunct2 [OF outcome, rule_format, OF outer_run_finished]
  obtain k where "k < 12" "output_reached
          (steps k (sample_engine [outer_flow, loop_flow])
             (start (sample_engine [outer_flow, loop_flow]) ''O''))
          (Collection [Collection [Collection [Text ''hello'', Text ''hello'']]])
          [\<lparr>turn_node = ''b'', turn_text = ''hello''\<rparr>, \<lparr>turn_node = ''b'', turn_text = ''hello''\<rparr>,
           \<lparr>turn_node = ''b'', turn_text = ''hello''\<rparr>]"
    by blast
  then have "\<exists>k<12. output_reached
          (steps k (sample_engine [outer_flow, loop_flow])
             (start (sample_engine [outer_flow, loop_flow]) ''O''))
          (Collection [Collection [Collection [Text ''hello'', Text ''hello'']]])
          [\<lparr>turn_node = ''b'', turn_text = ''hello''\<rparr>, \<lparr>turn_node = ''b'', turn_text = ''hello''\<rparr>,
           \<lparr>turn_node = ''b'', turn_text = ''hello''\<rparr>]"
    by blast
  then show ?thesis
    using v outer_run_finished conjunct1 [OF outcome] by (intro conjI)
qed

end
